theory Spec2Isabelle
  imports Complex_Main
begin

section \<open>Strings and errors\<close>

text \<open>
  A Python \<open>str\<close> is a sequence of Unicode code points. It is modelled as a list of
  natural numbers, one per code point, so that \<open>len\<close> is \<open>length\<close> and the
  characters beyond Latin-1 that the program uses are ordinary values.
  \<open>str\<close> turns a literal of the theory into such a sequence. The code points written
  as numbers below are 10 (line feed), 13 (carriage return), 35 (\<open>#\<close>), 38 (\<open>&\<close>),
  47 (\<open>/\<close>), 59 (\<open>;\<close>), 60 (\<open><\<close>), 62 (\<open>>\<close>), 88 (\<open>X\<close>) and 120 (\<open>x\<close>).
\<close>

type_synonym pystr = "nat list"

definition str :: "string \<Rightarrow> pystr" where
  "str s = map of_char s"

text \<open>The exceptions that the modelled code and the builtins it calls can raise.\<close>

datatype error = ValueError | TypeError | AttributeError | OverflowError | RuntimeError

section \<open>The chunker\<close>

text \<open>
  \<open>text[a:b]\<close> for indices \<open>0 \<le> a\<close>, the only slices the source takes: the
  characters at the positions from \<open>a\<close> up to, and without, \<open>min b (len text)\<close>.
\<close>

definition slice :: "pystr \<Rightarrow> int \<Rightarrow> int \<Rightarrow> pystr" where
  "slice text a b = take (nat (b - a)) (drop (nat a) text)"

text \<open>
  The \<open>while start < length\<close> loop of \<open>chunk_text\<close>, with \<open>chunks\<close> the list built
  so far. The loop is reached with a positive \<open>chunk_size\<close> only (the check before it
  raises otherwise); the conjunct \<open>0 < chunk_size\<close> of the test records that and is what
  makes the recursion terminate.
\<close>

function chunk_loop :: "pystr \<Rightarrow> int \<Rightarrow> int \<Rightarrow> pystr list \<Rightarrow> pystr list" where
  "chunk_loop text chunk_size start chunks =
     (if start < int (length text) \<and> 0 < chunk_size
      then chunk_loop text chunk_size (start + chunk_size)
             (chunks @ [slice text start (start + chunk_size)])
      else chunks)"
  by pat_completeness auto
termination
  by (relation "measure (\<lambda>(text, chunk_size, start, chunks). nat (int (length text) - start))")
     auto

definition chunk_text :: "pystr \<Rightarrow> int \<Rightarrow> error + pystr list" where
  "chunk_text text chunk_size =
     (if chunk_size \<le> 0 then Inl ValueError
      else if text = [] then Inr [[]]
      else Inr (chunk_loop text chunk_size 0 []))"

section \<open>Builtin string operations\<close>

text \<open>
  The code points that \<open>str.strip()\<close> removes and \<open>str.isspace()\<close> accepts:
  U+0009 to U+000D, U+001C to U+0020, U+0085, U+00A0, U+1680, U+2000 to U+200A, U+2028,
  U+2029, U+202F, U+205F and U+3000.
\<close>

definition isspace :: "nat \<Rightarrow> bool" where
  "isspace c \<longleftrightarrow>
     (9 \<le> c \<and> c \<le> 13) \<or> (28 \<le> c \<and> c \<le> 32) \<or> c = 133 \<or> c = 160 \<or> c = 5760 \<or>
     (8192 \<le> c \<and> c \<le> 8202) \<or> c = 8232 \<or> c = 8233 \<or> c = 8239 \<or> c = 8287 \<or> c = 12288"

text \<open>
  The line boundaries of \<open>str.splitlines()\<close>: U+000A to U+000D, U+001C to U+001E,
  U+0085, U+2028 and U+2029.
\<close>

definition islinebreak :: "nat \<Rightarrow> bool" where
  "islinebreak c \<longleftrightarrow>
     (10 \<le> c \<and> c \<le> 13) \<or> (28 \<le> c \<and> c \<le> 30) \<or> c = 133 \<or> c = 8232 \<or> c = 8233"

definition strip :: "pystr \<Rightarrow> pystr" where
  "strip s = rev (dropWhile isspace (rev (dropWhile isspace s)))"

text \<open>
  \<open>str.splitlines()\<close>, with \<open>cur\<close> the line read so far: a carriage return followed
  by a line feed is one boundary, and a boundary at the very end opens no further line.
\<close>

fun splitlines_from :: "pystr \<Rightarrow> pystr \<Rightarrow> pystr list" where
  "splitlines_from cur [] = (if cur = [] then [] else [cur])"
| "splitlines_from cur [c] = (if islinebreak c then [cur] else [cur @ [c]])"
| "splitlines_from cur (c # d # cs) =
     (if c = 13 \<and> d = 10 then cur # splitlines_from [] cs
      else if islinebreak c then cur # splitlines_from [] (d # cs)
      else splitlines_from (cur @ [c]) (d # cs))"

definition splitlines :: "pystr \<Rightarrow> pystr list" where
  "splitlines s = splitlines_from [] s"

text \<open>\<open>sep.join(xs)\<close>.\<close>

fun join :: "pystr \<Rightarrow> pystr list \<Rightarrow> pystr" where
  "join sep [] = []"
| "join sep [x] = x"
| "join sep (x # y # ys) = x @ sep @ join sep (y # ys)"

text \<open>
  \<open>html.unescape\<close> returns its argument as it is when it holds no ampersand, and
  otherwise the result of the substitution \<open>_charref.sub(_replace_charref, s)\<close>, which
  reads the table of the named references of HTML 5. That table is part of the standard
  library, not of this program: the substitution is the parameter \<open>charref_sub\<close>.
\<close>

definition unescape :: "(pystr \<Rightarrow> pystr) \<Rightarrow> pystr \<Rightarrow> pystr" where
  "unescape charref_sub s = (if 38 \<notin> set s then s else charref_sub s)"

section \<open>The text extractor\<close>

definition IGNORED_TAGS :: "pystr set" where
  "IGNORED_TAGS = set (map str [''script'', ''style'', ''noscript'', ''svg'', ''video'',
     ''audio'', ''figure'', ''img'', ''iframe''])"

definition BLOCK_TAGS :: "pystr set" where
  "BLOCK_TAGS = set (map str [''p'', ''div'', ''section'', ''br'', ''li'', ''ul'', ''ol'',
     ''blockquote'', ''pre'', ''code'', ''h1'', ''h2'', ''h3'', ''h4'', ''h5'', ''h6'',
     ''table'', ''tr'', ''td''])"

text \<open>The two fields of \<open>TextOnlyHTMLParser\<close>; \<open>ignored_depth\<close> is a Python \<open>int\<close>.\<close>

record parser =
  parts :: "pystr list"
  ignored_depth :: int

definition init :: parser where
  "init = \<lparr>parts = [], ignored_depth = 0\<rparr>"

text \<open>
  The handlers. \<open>handle_starttag\<close> never reads its \<open>attrs\<close> argument, which is left
  out. The test \<open>if self._ignored_depth\<close> is Python's truth of an \<open>int\<close>: not zero.
\<close>

definition handle_starttag :: "parser \<Rightarrow> pystr \<Rightarrow> parser" where
  "handle_starttag self tag =
     (if tag \<in> IGNORED_TAGS then self\<lparr>ignored_depth := ignored_depth self + 1\<rparr>
      else if ignored_depth self \<noteq> 0 then self
      else if tag \<in> BLOCK_TAGS then self\<lparr>parts := parts self @ [[10]]\<rparr>
      else self)"

definition handle_endtag :: "parser \<Rightarrow> pystr \<Rightarrow> parser" where
  "handle_endtag self tag =
     (if ignored_depth self \<noteq> 0 \<and> tag \<in> IGNORED_TAGS
      then self\<lparr>ignored_depth := ignored_depth self - 1\<rparr>
      else if ignored_depth self \<noteq> 0 then self
      else if tag \<in> BLOCK_TAGS then self\<lparr>parts := parts self @ [[10]]\<rparr>
      else self)"

definition handle_data :: "(pystr \<Rightarrow> pystr) \<Rightarrow> parser \<Rightarrow> pystr \<Rightarrow> parser" where
  "handle_data charref_sub self data =
     (if ignored_depth self \<noteq> 0 then self
      else if strip data \<noteq> [] then self\<lparr>parts := parts self @ [unescape charref_sub data]\<rparr>
      else self)"

definition handle_entityref :: "(pystr \<Rightarrow> pystr) \<Rightarrow> parser \<Rightarrow> pystr \<Rightarrow> parser" where
  "handle_entityref charref_sub self name =
     (if ignored_depth self \<noteq> 0 then self
      else self\<lparr>parts := parts self @ [unescape charref_sub ([38] @ name @ [59])]\<rparr>)"

definition handle_charref :: "(pystr \<Rightarrow> pystr) \<Rightarrow> parser \<Rightarrow> pystr \<Rightarrow> parser" where
  "handle_charref charref_sub self name =
     (if ignored_depth self \<noteq> 0 then self
      else self\<lparr>parts := parts self @ [unescape charref_sub ([38, 35] @ name @ [59])]\<rparr>)"

text \<open>
  The loop of \<open>get_text\<close> that drops a blank line following a blank line, with
  \<open>filtered_lines\<close> and \<open>previous_blank\<close> as the loop carries them.
\<close>

fun filter_lines :: "pystr list \<Rightarrow> bool \<Rightarrow> pystr list \<Rightarrow> pystr list" where
  "filter_lines filtered_lines previous_blank [] = filtered_lines"
| "filter_lines filtered_lines previous_blank (line # lines) =
     (let is_blank = (line = []) in
      if is_blank \<and> previous_blank then filter_lines filtered_lines previous_blank lines
      else filter_lines (filtered_lines @ [line]) is_blank lines)"

definition get_text :: "parser \<Rightarrow> pystr" where
  "get_text self =
     (let lines = map strip (splitlines (concat (parts self)))
      in strip (join [10] (filter_lines [] False lines)))"

text \<open>
  The calls that the tokenizer of \<open>html.parser.HTMLParser\<close> makes on the parser
  object, one constructor per handler. The last four handlers are not overridden by
  \<open>TextOnlyHTMLParser\<close> and do nothing.
\<close>

datatype event =
    StartTag pystr
  | EndTag pystr
  | Data pystr
  | EntityRef pystr
  | CharRef pystr
  | Comment pystr
  | Decl pystr
  | Pi pystr
  | UnknownDecl pystr

fun dispatch :: "(pystr \<Rightarrow> pystr) \<Rightarrow> parser \<Rightarrow> event \<Rightarrow> parser" where
  "dispatch charref_sub self (StartTag tag) = handle_starttag self tag"
| "dispatch charref_sub self (EndTag tag) = handle_endtag self tag"
| "dispatch charref_sub self (Data data) = handle_data charref_sub self data"
| "dispatch charref_sub self (EntityRef name) = handle_entityref charref_sub self name"
| "dispatch charref_sub self (CharRef name) = handle_charref charref_sub self name"
| "dispatch charref_sub self (Comment data) = self"
| "dispatch charref_sub self (Decl decl) = self"
| "dispatch charref_sub self (Pi data) = self"
| "dispatch charref_sub self (UnknownDecl data) = self"

text \<open>A whole extraction pass over the calls \<open>events\<close>, from a fresh parser object.\<close>

definition feed_events :: "(pystr \<Rightarrow> pystr) \<Rightarrow> event list \<Rightarrow> parser" where
  "feed_events charref_sub events = foldl (dispatch charref_sub) init events"

definition extract_text :: "(pystr \<Rightarrow> pystr) \<Rightarrow> event list \<Rightarrow> pystr" where
  "extract_text charref_sub events = get_text (feed_events charref_sub events)"

section \<open>The tokenizer of the standard library\<close>

text \<open>
  \<open>parse_answer_text\<close> feeds its argument to \<open>html.parser.HTMLParser\<close>, created
  with \<open>convert_charrefs=False\<close>, and closes it. The tokenizer belongs to the standard
  library. \<open>goahead\<close> models it (CPython 3.11, \<open>HTMLParser.goahead\<close> with
  \<open>parse_starttag\<close> and \<open>parse_endtag\<close>) on the following markup, and is \<open>None\<close>
  on every input that holds anything else, which says nothing about what the library
  does there:
  \<^item> text without \<open><\<close> and \<open>&\<close>, passed to \<open>handle_data\<close> in one piece;
  \<^item> a start tag \<open><name>\<close> and an empty-element tag \<open><name/>\<close>, the name an ASCII
    letter followed by ASCII letters and digits, without attributes; the handlers get the
    name in lower case, and \<open><name/>\<close> calls \<open>handle_starttag\<close> and then
    \<open>handle_endtag\<close>;
  \<^item> an end tag \<open></name>\<close>;
  \<^item> the references \<open>&name;\<close>, \<open>&#digits;\<close> and \<open>&#xhex;\<close>;
  \<^item> after the start tag of a \<open>script\<close> or \<open>style\<close> element
    (\<open>CDATA_CONTENT_ELEMENTS\<close>), everything up to the first end tag of that name is
    character data and reaches \<open>handle_data\<close> in one piece, other end tags included.
\<close>

definition isalpha :: "nat \<Rightarrow> bool" where
  "isalpha c \<longleftrightarrow> (65 \<le> c \<and> c \<le> 90) \<or> (97 \<le> c \<and> c \<le> 122)"

definition isdigit :: "nat \<Rightarrow> bool" where
  "isdigit c \<longleftrightarrow> 48 \<le> c \<and> c \<le> 57"

definition isxdigit :: "nat \<Rightarrow> bool" where
  "isxdigit c \<longleftrightarrow> isdigit c \<or> (65 \<le> c \<and> c \<le> 70) \<or> (97 \<le> c \<and> c \<le> 102)"

definition isalnum :: "nat \<Rightarrow> bool" where
  "isalnum c \<longleftrightarrow> isalpha c \<or> isdigit c"

definition lower :: "nat \<Rightarrow> nat" where
  "lower c = (if 65 \<le> c \<and> c \<le> 90 then c + 32 else c)"

definition CDATA_CONTENT_ELEMENTS :: "pystr set" where
  "CDATA_CONTENT_ELEMENTS = set (map str [''script'', ''style''])"

text \<open>The input without the literal \<open>p\<close> at its head, if it starts with \<open>p\<close>.\<close>

definition after :: "pystr \<Rightarrow> pystr \<Rightarrow> pystr option" where
  "after p s = (if take (length p) s = p then Some (drop (length p) s) else None)"

text \<open>A tag name at the head of the input, in lower case, and what follows it.\<close>

definition tag_name :: "pystr \<Rightarrow> (pystr \<times> pystr) option" where
  "tag_name s =
     (case takeWhile isalnum s of
        [] \<Rightarrow> None
      | c # cs \<Rightarrow> if isalpha c then Some (map lower (c # cs), dropWhile isalnum s) else None)"

text \<open>\<open></name>\<close> at the head of the input: the name and the rest.\<close>

definition end_tag :: "pystr \<Rightarrow> (pystr \<times> pystr) option" where
  "end_tag s =
     (case after [60, 47] s of
        None \<Rightarrow> None
      | Some r \<Rightarrow>
          (case tag_name r of
             None \<Rightarrow> None
           | Some (tag, r') \<Rightarrow>
               (case after [62] r' of None \<Rightarrow> None | Some rest \<Rightarrow> Some (tag, rest))))"

text \<open>
  \<open><name>\<close> or \<open><name/>\<close> at the head of the input: the calls made, the element
  whose content is now read as character data (if any), and the rest.
\<close>

definition start_tag :: "pystr \<Rightarrow> (event list \<times> pystr option \<times> pystr) option" where
  "start_tag s =
     (case after [60] s of
        None \<Rightarrow> None
      | Some r \<Rightarrow>
          (case tag_name r of
             None \<Rightarrow> None
           | Some (tag, r') \<Rightarrow>
               (case after [62] r' of
                  Some rest \<Rightarrow>
                    Some ([StartTag tag],
                          if tag \<in> CDATA_CONTENT_ELEMENTS then Some tag else None, rest)
                | None \<Rightarrow>
                    (case after [47, 62] r' of
                       Some rest \<Rightarrow> Some ([StartTag tag, EndTag tag], None, rest)
                     | None \<Rightarrow> None))))"

text \<open>\<open>&name;\<close>, \<open>&#digits;\<close> or \<open>&#xhex;\<close> at the head of the input.\<close>

definition reference :: "pystr \<Rightarrow> (event \<times> pystr) option" where
  "reference s =
     (case after [38, 35] s of
        Some r \<Rightarrow>
          (let x = (if take 1 r = [120] \<or> take 1 r = [88] then take 1 r else []);
               digit = (if x = [] then isdigit else isxdigit);
               r' = drop (length x) r
           in if takeWhile digit r' = [] then None
              else (case after [59] (dropWhile digit r') of
                      None \<Rightarrow> None
                    | Some rest \<Rightarrow> Some (CharRef (x @ takeWhile digit r'), rest)))
      | None \<Rightarrow>
          (case after [38] s of
             None \<Rightarrow> None
           | Some r \<Rightarrow>
               (case takeWhile isalnum r of
                  [] \<Rightarrow> None
                | c # cs \<Rightarrow>
                    if isalpha c
                    then (case after [59] (dropWhile isalnum r) of
                            None \<Rightarrow> None
                          | Some rest \<Rightarrow> Some (EntityRef (c # cs), rest))
                    else None)))"

text \<open>
  Inside a \<open>script\<close> or \<open>style\<close> element: the character data \<open>acc\<close> read so far
  grows up to the first end tag named \<open>elem\<close>; the result is that data and the input
  after the end tag.
\<close>

fun find_close :: "pystr \<Rightarrow> pystr \<Rightarrow> pystr \<Rightarrow> (pystr \<times> pystr) option" where
  "find_close elem acc [] = None"
| "find_close elem acc (c # cs) =
     (if take 2 (c # cs) = [60, 47]
      then (case end_tag (c # cs) of
              None \<Rightarrow> None
            | Some (tag, rest) \<Rightarrow>
                if tag = elem then Some (acc, rest) else find_close elem (acc @ [c]) cs)
      else find_close elem (acc @ [c]) cs)"

text \<open>
  One round of the tokenizer's loop on a non-empty input: the calls it makes, the
  element whose content is read as character data afterwards, and the input left.
\<close>

definition scan :: "pystr option \<Rightarrow> pystr \<Rightarrow> (event list \<times> pystr option \<times> pystr) option" where
  "scan cdata_elem rawdata =
     (case cdata_elem of
        Some elem \<Rightarrow>
          (case find_close elem [] rawdata of
             None \<Rightarrow> None
           | Some (data, rest) \<Rightarrow>
               Some ((if data = [] then [] else [Data data]) @ [EndTag elem], None, rest))
      | None \<Rightarrow>
          if take 2 rawdata = [60, 47]
          then (case end_tag rawdata of
                  None \<Rightarrow> None
                | Some (tag, rest) \<Rightarrow> Some ([EndTag tag], None, rest))
          else if take 1 rawdata = [60] then start_tag rawdata
          else if take 1 rawdata = [38]
          then (case reference rawdata of
                  None \<Rightarrow> None
                | Some (ev, rest) \<Rightarrow> Some ([ev], None, rest))
          else Some ([Data (takeWhile (\<lambda>c. c \<noteq> 60 \<and> c \<noteq> 38) rawdata)], None,
                     dropWhile (\<lambda>c. c \<noteq> 60 \<and> c \<noteq> 38) rawdata))"

lemma after_shorter:
  assumes "after p s = Some r"
  shows "length r + length p = length s"
proof -
  have t: "take (length p) s = p" and r: "r = drop (length p) s"
    using assms by (auto simp: after_def split: if_splits)
  have "length (take (length p) s) = length p"
    by (simp only: t)
  then have "length p \<le> length s"
    by simp
  then show ?thesis
    using r by simp
qed

lemma tag_name_shorter: "tag_name s = Some (tag, r) \<Longrightarrow> length r < length s"
proof -
  assume a: "tag_name s = Some (tag, r)"
  then have r: "r = dropWhile isalnum s" and ne: "takeWhile isalnum s \<noteq> []"
    by (auto simp: tag_name_def split: list.splits if_splits)
  have "length (takeWhile isalnum s) + length (dropWhile isalnum s) = length s"
    by (metis length_append takeWhile_dropWhile_id)
  then show ?thesis using r ne by (cases "takeWhile isalnum s") auto
qed

lemma end_tag_shorter:
  assumes "end_tag s = Some (tag, rest)"
  shows "length rest < length s"
proof -
  obtain r r' where 1: "after [60, 47] s = Some r" and 2: "tag_name r = Some (tag, r')"
    and 3: "after [62] r' = Some rest"
    using assms by (auto simp: end_tag_def split: option.splits prod.splits)
  show ?thesis
    using after_shorter [OF 1] tag_name_shorter [OF 2] after_shorter [OF 3] by simp
qed

lemma start_tag_shorter:
  assumes "start_tag s = Some (evs, cd, rest)"
  shows "length rest < length s"
proof -
  obtain r tag r' where 1: "after [60] s = Some r" and 2: "tag_name r = Some (tag, r')"
    and 3: "after [62] r' = Some rest \<or> after [47, 62] r' = Some rest"
    using assms by (auto simp: start_tag_def split: option.splits prod.splits)
  from 3 have "length rest \<le> length r'"
    by (auto dest: after_shorter)
  then show ?thesis
    using after_shorter [OF 1] tag_name_shorter [OF 2] by simp
qed

lemma reference_shorter:
  assumes "reference s = Some (ev, rest)"
  shows "length rest < length s"
proof (cases "after [38, 35] s")
  case (Some r)
  define x where "x = (if take 1 r = [120] \<or> take 1 r = [88] then take 1 r else [])"
  define digit where "digit = (if x = [] then isdigit else isxdigit)"
  have "reference s =
     (if takeWhile digit (drop (length x) r) = [] then None
      else (case after [59] (dropWhile digit (drop (length x) r)) of
              None \<Rightarrow> None
            | Some rest \<Rightarrow> Some (CharRef (x @ takeWhile digit (drop (length x) r)), rest)))"
    unfolding reference_def Some x_def digit_def by (simp only: Let_def option.case)
  then have "after [59] (dropWhile digit (drop (length x) r)) = Some rest"
    using assms by (auto split: if_splits option.splits)
  then have "length rest < length (dropWhile digit (drop (length x) r))"
    by (auto dest: after_shorter)
  also have "\<dots> \<le> length (drop (length x) r)"
    by (rule length_dropWhile_le)
  also have "\<dots> \<le> length r" by simp
  also have "\<dots> \<le> length s" using after_shorter [OF Some] by simp
  finally show ?thesis .
next
  case None
  then obtain r where r: "after [38] s = Some r"
    using assms by (auto simp: reference_def split: option.splits)
  have "after [59] (dropWhile isalnum r) = Some rest"
    using assms None r
    by (simp add: reference_def split: list.splits if_splits option.splits)
  then have "length rest < length (dropWhile isalnum r)"
    by (auto dest: after_shorter)
  also have "\<dots> \<le> length r"
    by (rule length_dropWhile_le)
  also have "\<dots> \<le> length s" using after_shorter [OF r] by simp
  finally show ?thesis .
qed

lemma find_close_shorter: "find_close elem acc s = Some (data, rest) \<Longrightarrow> length rest < length s"
proof (induction s arbitrary: acc)
  case Nil
  then show ?case by simp
next
  case (Cons c cs)
  show ?case
  proof (cases "take 2 (c # cs) = [60, 47]")
    case True
    obtain tag rest' where e: "end_tag (c # cs) = Some (tag, rest')"
      using Cons.prems True by (auto split: option.splits)
    show ?thesis
    proof (cases "tag = elem")
      case True
      then have "rest = rest'"
        using Cons.prems \<open>take 2 (c # cs) = [60, 47]\<close> e by simp
      then show ?thesis using end_tag_shorter [OF e] by simp
    next
      case False
      then have "find_close elem (acc @ [c]) cs = Some (data, rest)"
        using Cons.prems \<open>take 2 (c # cs) = [60, 47]\<close> e by simp
      then show ?thesis using Cons.IH by fastforce
    qed
  next
    case False
    then have "find_close elem (acc @ [c]) cs = Some (data, rest)"
      using Cons.prems by (auto split: if_splits)
    then show ?thesis using Cons.IH by fastforce
  qed
qed

lemma scan_shorter:
  assumes "scan cdata_elem rawdata = Some (evs, cd, rest)" and "rawdata \<noteq> []"
  shows "length rest < length rawdata"
proof (cases cdata_elem)
  case (Some elem)
  then obtain data where "find_close elem [] rawdata = Some (data, rest)"
    using assms(1) by (auto simp: scan_def split: option.splits prod.splits)
  then show ?thesis
    by (rule find_close_shorter)
next
  case None
  show ?thesis
  proof (cases "take 2 rawdata = [60, 47]")
    case True
    then obtain tag where "end_tag rawdata = Some (tag, rest)"
      using assms(1) None by (auto simp: scan_def split: option.splits prod.splits)
    then show ?thesis by (rule end_tag_shorter)
  next
    case not_end: False
    show ?thesis
    proof (cases "take 1 rawdata = [60]")
      case True
      then have "start_tag rawdata = Some (evs, cd, rest)"
        using assms(1) None not_end by (simp add: scan_def)
      then show ?thesis by (rule start_tag_shorter)
    next
      case not_start: False
      show ?thesis
      proof (cases "take 1 rawdata = [38]")
        case True
        then obtain ev where "reference rawdata = Some (ev, rest)"
          using assms(1) None not_end not_start
          by (auto simp: scan_def split: option.splits prod.splits)
        then show ?thesis by (rule reference_shorter)
      next
        case False
        then have rest: "rest = dropWhile (\<lambda>c. c \<noteq> 60 \<and> c \<noteq> 38) rawdata"
          using assms(1) None not_end not_start by (simp add: scan_def)
        obtain c cs where rawdata: "rawdata = c # cs"
          using assms(2) by (cases rawdata) auto
        have "c \<noteq> 60" "c \<noteq> 38"
          using not_start False rawdata by simp_all
        then have "rest = dropWhile (\<lambda>c. c \<noteq> 60 \<and> c \<noteq> 38) cs"
          using rest rawdata by simp
        then have "length rest \<le> length cs"
          by (simp add: length_dropWhile_le)
        then show ?thesis using rawdata by simp
      qed
    qed
  qed
qed

text \<open>
  The tokenizer's loop, from \<open>feed\<close> to \<open>close\<close>: the calls made on the parser
  object, in order. An input that ends inside a \<open>script\<close> or \<open>style\<close> element is
  outside the markup modelled.
\<close>

function goahead :: "pystr option \<Rightarrow> pystr \<Rightarrow> event list option" where
  "goahead cdata_elem rawdata =
     (if rawdata = [] then (if cdata_elem = None then Some [] else None)
      else (case scan cdata_elem rawdata of
              None \<Rightarrow> None
            | Some (events, cdata_elem', rest) \<Rightarrow>
                map_option ((@) events) (goahead cdata_elem' rest)))"
  by pat_completeness auto
termination
  by (relation "measure (\<lambda>(cdata_elem, rawdata). length rawdata)")
     (auto dest: scan_shorter)

text \<open>
  \<open>parse_answer_text\<close>: a fresh parser object, \<open>feed\<close>, \<open>close\<close>, \<open>get_text\<close>.
  The result is \<open>None\<close> exactly when the input is outside the markup that \<open>goahead\<close>
  models.
\<close>

definition parse_answer_text :: "(pystr \<Rightarrow> pystr) \<Rightarrow> pystr \<Rightarrow> pystr option" where
  "parse_answer_text charref_sub html_content =
     map_option (extract_text charref_sub) (goahead None html_content)"

section \<open>Decoded responses\<close>

text \<open>
  What \<open>json.loads\<close> returns: \<open>None\<close>, a \<open>bool\<close>, an \<open>int\<close>, a \<open>float\<close>, a
  \<open>str\<close>, a \<open>list\<close> or a \<open>dict\<close>. A finite \<open>float\<close> is the rational number it
  stands for. A \<open>dict\<close> is the list of its items in order; a key is looked up from the
  front.
\<close>

datatype pyfloat = Finite rat | PosInf | NegInf | NaN

datatype json =
    JNull
  | JBool bool
  | JInt int
  | JFloat pyfloat
  | JStr pystr
  | JArr "json list"
  | JObj "(pystr \<times> json) list"

text \<open>Python's truth value of an object, as \<open>if x\<close>, \<open>not x\<close> and \<open>x or y\<close> test it.\<close>

fun truthy :: "json \<Rightarrow> bool" where
  "truthy JNull = False"
| "truthy (JBool b) = b"
| "truthy (JInt n) = (n \<noteq> 0)"
| "truthy (JFloat f) = (f \<noteq> Finite 0)"
| "truthy (JStr s) = (s \<noteq> [])"
| "truthy (JArr xs) = (xs \<noteq> [])"
| "truthy (JObj kvs) = (kvs \<noteq> [])"

definition py_or :: "json \<Rightarrow> json \<Rightarrow> json" where
  "py_or x y = (if truthy x then x else y)"

text \<open>\<open>x.get(key, dflt)\<close>: only a \<open>dict\<close> has the method.\<close>

fun py_get :: "json \<Rightarrow> pystr \<Rightarrow> json \<Rightarrow> error + json" where
  "py_get (JObj kvs) key dflt =
     Inr (case map_of kvs key of None \<Rightarrow> dflt | Some v \<Rightarrow> v)"
| "py_get x key dflt = Inl AttributeError"

text \<open>
  \<open>int(x)\<close>. A \<open>float\<close> is truncated towards zero. Reading a \<open>str\<close> as a decimal
  numeral is the builtin's work and is the parameter \<open>int_of_str\<close>, which is \<open>None\<close>
  where the builtin raises \<open>ValueError\<close>.
\<close>

fun py_int :: "(pystr \<Rightarrow> int option) \<Rightarrow> json \<Rightarrow> error + int" where
  "py_int int_of_str (JInt n) = Inr n"
| "py_int int_of_str (JBool b) = Inr (if b then 1 else 0)"
| "py_int int_of_str (JFloat (Finite q)) = Inr (if 0 \<le> q then \<lfloor>q\<rfloor> else \<lceil>q\<rceil>)"
| "py_int int_of_str (JFloat NaN) = Inl ValueError"
| "py_int int_of_str (JFloat f) = Inl OverflowError"
| "py_int int_of_str (JStr s) =
     (case int_of_str s of None \<Rightarrow> Inl ValueError | Some n \<Rightarrow> Inr n)"
| "py_int int_of_str x = Inl TypeError"

text \<open>
  The objects that \<open>for answer in x\<close> goes through: the elements of a \<open>list\<close>, the keys
  of a \<open>dict\<close>, the characters of a \<open>str\<close>.
\<close>

fun py_iter :: "json \<Rightarrow> error + json list" where
  "py_iter (JArr xs) = Inr xs"
| "py_iter (JObj kvs) = Inr (map JStr (remdups (map fst kvs)))"
| "py_iter (JStr s) = Inr (map (\<lambda>c. JStr [c]) s)"
| "py_iter x = Inl TypeError"

text \<open>Sequencing of steps that may raise: the first exception ends the sequence.\<close>

definition try_bind :: "error + 'a \<Rightarrow> ('a \<Rightarrow> error + 'b) \<Rightarrow> error + 'b" where
  "try_bind m f = (case m of Inl e \<Rightarrow> Inl e | Inr x \<Rightarrow> f x)"

section \<open>The pagination client and the record pipeline\<close>

definition DEFAULT_PAGE_SIZE :: int where
  "DEFAULT_PAGE_SIZE = 20"

text \<open>
  \<open>AnswerRecord\<close>. The dataclass does not check its fields: \<open>author_name\<close> is whatever
  object the response holds under the author's name, when that object is true.
\<close>

record AnswerRecord =
  author_name :: json
  voteup_count :: int
  favlists_count :: int
  content_text :: pystr

text \<open>The placeholder for a missing author name, U+533F U+540D U+7528 U+6237.\<close>

definition anonymous :: pystr where
  "anonymous = [21311, 21517, 29992, 25143]"

text \<open>
  A request, by the three parts of its URL that vary: the question, and the \<open>limit\<close> and
  \<open>offset\<close> parameters of the query.
\<close>

record request =
  req_question :: pystr
  req_limit :: int
  req_offset :: int

text \<open>
  What the program does not define itself:
  \<^item> \<open>transport\<close>: the \<open>try\<close> block of \<open>fetch_answers\<close>, from \<open>urlopen\<close> to
    \<open>json.loads\<close>: the decoded payload, or \<open>None\<close> when anything in the block raises
    (a status other than 200 included), which the \<open>except\<close> clause turns into
    \<open>RuntimeError\<close>. Within one run no two requests have the same offset, so a function
    of the request covers a server that answers differently over time;
  \<^item> \<open>parse_html\<close>: \<open>parse_answer_text\<close> as a whole, tokenizer of the standard library
    included, with the exception it ends in, if any. What is proved of the pipeline holds
    for every such function;
  \<^item> \<open>int_of_str\<close>: the builtin \<open>int\<close> on a \<open>str\<close>.
\<close>

record env =
  transport :: "request \<Rightarrow> json option"
  parse_html :: "pystr \<Rightarrow> error + pystr"
  int_of_str :: "pystr \<Rightarrow> int option"

text \<open>
  The body of \<open>for answer in answers\<close> up to the \<open>yield\<close>: the record built from one
  raw answer. \<open>parser.feed\<close> raises \<open>TypeError\<close> on an object that is not a \<open>str\<close>.
\<close>

definition answer_record :: "env \<Rightarrow> json \<Rightarrow> error + AnswerRecord" where
  "answer_record e answer =
     try_bind (py_get answer (str ''author'') JNull) (\<lambda>author0.
     let author = py_or author0 (JObj []) in
     try_bind (py_get author (str ''name'') JNull) (\<lambda>name0.
     let name = py_or name0 (JStr anonymous) in
     try_bind (py_get answer (str ''voteup_count'') (JInt 0)) (\<lambda>voteup0.
     try_bind (py_int (int_of_str e) voteup0) (\<lambda>voteup.
     try_bind (py_get answer (str ''favlists_count'') (JInt 0)) (\<lambda>favlists0.
     try_bind (py_int (int_of_str e) favlists0) (\<lambda>favlists.
     try_bind (py_get answer (str ''content'') JNull) (\<lambda>content0.
     let raw_content = py_or content0 (JStr []) in
     try_bind (case raw_content of JStr html \<Rightarrow> parse_html e html | _ \<Rightarrow> Inl TypeError)
       (\<lambda>parsed_content.
     Inr \<lparr>author_name = name, voteup_count = voteup, favlists_count = favlists,
          content_text = parsed_content\<rparr>))))))))"

text \<open>
  \<open>fetch_answers\<close> is a generator. Its run is the sequence of what it does, in order,
  and the exception it ends in, if any. A consumer that stops early has seen a prefix of
  that sequence and nothing after it has happened.
\<close>

datatype effect = Request request | Yield AnswerRecord | Sleep

text \<open>
  The loop \<open>for answer in answers\<close>, from \<open>collected\<close> records on: the effects, and
  either the exception raised or the value of \<open>collected\<close> after the loop.
\<close>

fun for_answers :: "env \<Rightarrow> int \<Rightarrow> int \<Rightarrow> json list \<Rightarrow> effect list \<times> (error + int)" where
  "for_answers e limit collected [] = ([], Inr collected)"
| "for_answers e limit collected (answer # answers) =
     (case answer_record e answer of
        Inl err \<Rightarrow> ([], Inl err)
      | Inr rec \<Rightarrow>
          if collected + 1 \<ge> limit then ([Yield rec], Inr (collected + 1))
          else (case for_answers e limit (collected + 1) answers of
                  (effects, result) \<Rightarrow> (Yield rec # effects, result)))"

text \<open>
  One round of \<open>while collected < limit\<close>: the loop is left (\<open>Stop\<close>, by \<open>break\<close> or
  by an exception), or goes on with new values of \<open>collected\<close> and \<open>offset\<close>.
\<close>

datatype round = Stop "effect list" "error option" | Continue "effect list" int int

definition page :: "env \<Rightarrow> pystr \<Rightarrow> int \<Rightarrow> int \<Rightarrow> int \<Rightarrow> round" where
  "page e question_id limit collected offset =
     (let current_limit = min DEFAULT_PAGE_SIZE (limit - collected);
          req = \<lparr>req_question = question_id, req_limit = current_limit, req_offset = offset\<rparr>
      in case transport e req of
           None \<Rightarrow> Stop [Request req] (Some RuntimeError)
         | Some payload \<Rightarrow>
             (case py_get payload (str ''data'') (JArr []) of
                Inl err \<Rightarrow> Stop [Request req] (Some err)
              | Inr answers \<Rightarrow>
                  if \<not> truthy answers then Stop [Request req] None
                  else (case py_iter answers of
                          Inl err \<Rightarrow> Stop [Request req] (Some err)
                        | Inr items \<Rightarrow>
                            (case for_answers e limit collected items of
                               (effects, Inl err) \<Rightarrow> Stop (Request req # effects) (Some err)
                             | (effects, Inr collected') \<Rightarrow>
                                 (case try_bind (py_get payload (str ''paging'') (JObj []))
                                         (\<lambda>paging. py_get paging (str ''is_end'') JNull) of
                                    Inl err \<Rightarrow> Stop (Request req # effects) (Some err)
                                  | Inr is_end \<Rightarrow>
                                      if truthy is_end then Stop (Request req # effects) None
                                      else Continue (Request req # effects @ [Sleep])
                                             collected' (offset + current_limit))))))"

lemma for_answers_progress:
  "for_answers e limit collected items = (effects, Inr collected') \<Longrightarrow> items \<noteq> [] \<Longrightarrow>
   collected < collected'"
proof (induction items arbitrary: collected effects)
  case Nil
  then show ?case by simp
next
  case (Cons answer answers)
  obtain r where rec: "answer_record e answer = Inr r"
    using Cons.prems(1) by (cases "answer_record e answer") auto
  show ?case
  proof (cases "collected + 1 \<ge> limit")
    case True
    then show ?thesis
      using Cons.prems(1) rec by simp
  next
    case False
    obtain effects' where rest: "for_answers e limit (collected + 1) answers = (effects', Inr collected')"
      using Cons.prems(1) rec False
      by (cases "for_answers e limit (collected + 1) answers") auto
    show ?thesis
    proof (cases "answers = []")
      case True
      then show ?thesis using rest by simp
    next
      case False
      then have "collected + 1 < collected'"
        using Cons.IH [OF rest] by simp
      then show ?thesis by simp
    qed
  qed
qed

lemma truthy_items: "truthy answers \<Longrightarrow> py_iter answers = Inr items \<Longrightarrow> items \<noteq> []"
  by (cases answers) auto

lemma page_progress:
  assumes "page e question_id limit collected offset = Continue effects collected' offset'"
  shows "collected < collected'"
proof -
  obtain answers items effs where
    "truthy answers" and "py_iter answers = Inr items" and
    "for_answers e limit collected items = (effs, Inr collected')"
    using assms unfolding page_def Let_def
    by (auto split: option.splits sum.splits if_splits prod.splits)
  then show ?thesis
    using for_answers_progress truthy_items by blast
qed

text \<open>The \<open>while\<close> loop of \<open>fetch_answers\<close>, from given values of its variables.\<close>

function fetch_loop :: "env \<Rightarrow> pystr \<Rightarrow> int \<Rightarrow> int \<Rightarrow> int \<Rightarrow> effect list \<times> error option" where
  "fetch_loop e question_id limit collected offset =
     (if collected < limit
      then (case page e question_id limit collected offset of
              Stop effects outcome \<Rightarrow> (effects, outcome)
            | Continue effects collected' offset' \<Rightarrow>
                (case fetch_loop e question_id limit collected' offset' of
                   (effects', outcome) \<Rightarrow> (effects @ effects', outcome)))
      else ([], None))"
  by pat_completeness auto
termination
  by (relation "measure (\<lambda>(e, question_id, limit, collected, offset). nat (limit - collected))")
     (auto dest: page_progress)

definition fetch_answers :: "env \<Rightarrow> pystr \<Rightarrow> int \<Rightarrow> effect list \<times> error option" where
  "fetch_answers e question_id limit = fetch_loop e question_id limit 0 0"

section \<open>The tabular writer and the program\<close>

text \<open>A row of the CSV file: the three leading cells and the chunks of the text.\<close>

record row =
  row_author :: json
  row_voteup :: int
  row_favlists :: int
  row_chunks :: "pystr list"

datatype action = Fetched request | Slept | Wrote row

text \<open>
  \<open>write_answers_to_csv\<close> on the run of the generator it is given: the loop
  \<open>for record in records\<close> resumes the generator, whose effects up to the next \<open>yield\<close>
  then happen, and writes a row for the record. When \<open>chunk_text\<close> raises, the loop is
  left and the generator is not resumed. Opening the file and writing a row are taken
  not to fail.
\<close>

fun write_rows :: "int \<Rightarrow> effect list \<Rightarrow> error option \<Rightarrow> action list \<times> error option" where
  "write_rows chunk_size [] outcome = ([], outcome)"
| "write_rows chunk_size (Request req # effects) outcome =
     (case write_rows chunk_size effects outcome of
        (actions, result) \<Rightarrow> (Fetched req # actions, result))"
| "write_rows chunk_size (Sleep # effects) outcome =
     (case write_rows chunk_size effects outcome of
        (actions, result) \<Rightarrow> (Slept # actions, result))"
| "write_rows chunk_size (Yield rec # effects) outcome =
     (case chunk_text (content_text rec) chunk_size of
        Inl err \<Rightarrow> ([], Some err)
      | Inr content_chunks \<Rightarrow>
          (case write_rows chunk_size effects outcome of
             (actions, result) \<Rightarrow>
               (Wrote \<lparr>row_author = author_name rec, row_voteup = voteup_count rec,
                        row_favlists = favlists_count rec, row_chunks = content_chunks\<rparr>
                  # actions, result)))"

definition write_answers_to_csv ::
    "effect list \<times> error option \<Rightarrow> int \<Rightarrow> action list \<times> error option" where
  "write_answers_to_csv records chunk_size = write_rows chunk_size (fst records) (snd records)"

text \<open>
  \<open>main\<close>, from the parsed arguments on (the output path plays no part and is left
  out): what happened, and how the program ended. Only \<open>RuntimeError\<close> is caught and
  becomes the return value 1; any other exception leaves \<open>main\<close>.
\<close>

record args =
  arg_question :: pystr
  arg_limit :: int
  arg_chunk_size :: int

datatype ending = Returned int | Uncaught error

fun ending_of :: "error option \<Rightarrow> ending" where
  "ending_of None = Returned 0"
| "ending_of (Some RuntimeError) = Returned 1"
| "ending_of (Some err) = Uncaught err"

definition main :: "env \<Rightarrow> args \<Rightarrow> action list \<times> ending" where
  "main e a =
     (case write_answers_to_csv (fetch_answers e (arg_question a) (arg_limit a))
             (arg_chunk_size a) of
        (actions, outcome) \<Rightarrow> (actions, ending_of outcome))"

section \<open>Notions used to state the properties\<close>

text \<open>
  Used to state what lies inside an ignored element, independently of the parser's own
  counter: starting with \<open>d\<close> ignored elements open, \<open>open_ignored d events\<close> is the
  number of ignored elements open after \<open>events\<close>, or \<open>None\<close> if some end tag of the
  ignored set arrives when none is open.
\<close>

fun open_ignored :: "nat \<Rightarrow> event list \<Rightarrow> nat option" where
  "open_ignored d [] = Some d"
| "open_ignored d (StartTag tag # events) =
     open_ignored (if tag \<in> IGNORED_TAGS then Suc d else d) events"
| "open_ignored d (EndTag tag # events) =
     (if tag \<in> IGNORED_TAGS
      then (case d of 0 \<Rightarrow> None | Suc d' \<Rightarrow> open_ignored d' events)
      else open_ignored d events)"
| "open_ignored d (ev # events) = open_ignored d events"

text \<open>
  Used to state the shape of the extracted text: its lines, as \<open>r.split("\n")\<close> gives
  them (\<open>split_from\<close> carries the line read so far), and whether two adjacent lines of a
  list of lines are both empty.
\<close>

fun split_from :: "nat \<Rightarrow> pystr \<Rightarrow> pystr \<Rightarrow> pystr list" where
  "split_from sep cur [] = [cur]"
| "split_from sep cur (c # cs) =
     (if c = sep then cur # split_from sep [] cs else split_from sep (cur @ [c]) cs)"

definition lines_of :: "pystr \<Rightarrow> pystr list" where
  "lines_of s = split_from 10 [] s"

fun adjacent_blank :: "pystr list \<Rightarrow> bool" where
  "adjacent_blank (x # y # ys) \<longleftrightarrow> (x = [] \<and> y = []) \<or> adjacent_blank (y # ys)"
| "adjacent_blank ys \<longleftrightarrow> False"

text \<open>The records yielded and the requests sent in a run, in order.\<close>

fun records_of :: "effect list \<Rightarrow> AnswerRecord list" where
  "records_of [] = []"
| "records_of (Yield r # effects) = r # records_of effects"
| "records_of (x # effects) = records_of effects"

fun requests_of :: "effect list \<Rightarrow> request list" where
  "requests_of [] = []"
| "requests_of (Request req # effects) = req # requests_of effects"
| "requests_of (x # effects) = requests_of effects"

text \<open>
  What the answer to a request says: \<open>page_empty\<close> when the payload was decoded and its
  \<open>data\<close> is missing or false (an empty list), \<open>end_flag\<close> when the payload was decoded
  and its \<open>paging.is_end\<close> is true.
\<close>

definition page_empty :: "env \<Rightarrow> request \<Rightarrow> bool" where
  "page_empty e req \<longleftrightarrow>
     (case transport e req of
        None \<Rightarrow> False
      | Some payload \<Rightarrow>
          (case py_get payload (str ''data'') (JArr []) of
             Inl err \<Rightarrow> False
           | Inr answers \<Rightarrow> \<not> truthy answers))"

definition end_flag :: "env \<Rightarrow> request \<Rightarrow> bool" where
  "end_flag e req \<longleftrightarrow>
     (case transport e req of
        None \<Rightarrow> False
      | Some payload \<Rightarrow>
          (case try_bind (py_get payload (str ''paging'') (JObj []))
                  (\<lambda>paging. py_get paging (str ''is_end'') JNull) of
             Inl err \<Rightarrow> False
           | Inr is_end \<Rightarrow> truthy is_end))"


text \<open>
  The scenarios of the pagination properties: an answer with all its fields and the
  record made of it when its content is extracted to \<open>t\<close>; a page of \<open>n\<close> such
  answers whose end flag is not set; a server with unlimited data, which returns as many
  answers as the request asks for; a server that returns pages of 20 answers at the
  offsets below 40 and an empty page from offset 40 on; and an environment with the
  first of these servers, an extractor that returns its input, and no string read as a
  number.
\<close>

definition sample_answer :: json where
  "sample_answer = JObj [(str ''author'', JObj [(str ''name'', JStr (str ''A''))]),
     (str ''voteup_count'', JInt 3), (str ''favlists_count'', JInt 1),
     (str ''content'', JStr (str ''Hello''))]"

definition page_of :: "nat \<Rightarrow> json" where
  "page_of n = JObj [(str ''data'', JArr (replicate n sample_answer)),
                     (str ''paging'', JObj [(str ''is_end'', JBool False)])]"

definition unlimited_server :: "request \<Rightarrow> json option" where
  "unlimited_server req = Some (page_of (nat (req_limit req)))"

definition two_page_server :: "request \<Rightarrow> json option" where
  "two_page_server req = Some (page_of (if req_offset req < 40 then 20 else 0))"

definition sample_record :: "pystr \<Rightarrow> AnswerRecord" where
  "sample_record t = \<lparr>author_name = JStr (str ''A''), voteup_count = 3, favlists_count = 1,
     content_text = t\<rparr>"

definition stub :: env where
  "stub = \<lparr>transport = unlimited_server, parse_html = Inr, int_of_str = map_of []\<rparr>"

text \<open>
  Two checks of a run, used in the proofs. \<open>paged\<close>: with \<open>collected\<close> records
  yielded and the next request due at \<open>offset\<close>, every request is sent while
  \<open>collected < limit\<close>, for the page size and offset the loop computes, and every record
  is yielded while \<open>collected < limit\<close>. \<open>stops\<close>: nothing follows a request answered
  by an empty page, and no request follows one answered with the end flag set.
\<close>

fun paged :: "pystr \<Rightarrow> int \<Rightarrow> int \<Rightarrow> int \<Rightarrow> effect list \<Rightarrow> bool" where
  "paged q limit collected offset [] = True"
| "paged q limit collected offset (Request req # effects) =
     (collected < limit \<and>
      req = \<lparr>req_question = q, req_limit = min DEFAULT_PAGE_SIZE (limit - collected),
             req_offset = offset\<rparr> \<and>
      paged q limit collected (offset + req_limit req) effects)"
| "paged q limit collected offset (Yield r # effects) =
     (collected < limit \<and> paged q limit (collected + 1) offset effects)"
| "paged q limit collected offset (Sleep # effects) = paged q limit collected offset effects"

fun stops :: "env \<Rightarrow> effect list \<Rightarrow> bool" where
  "stops e [] = True"
| "stops e (Request req # effects) =
     ((page_empty e req \<longrightarrow> effects = []) \<and>
      (end_flag e req \<longrightarrow> requests_of effects = []) \<and> stops e effects)"
| "stops e (x # effects) = stops e effects"

section \<open>Properties of the chunker\<close>

declare chunk_loop.simps [simp del]

declare goahead.simps [simp del]

declare fetch_loop.simps [simp del]

lemma chunk_loop_concat:
  "0 < n \<Longrightarrow> 0 \<le> start \<Longrightarrow>
   concat (chunk_loop t n start chunks) = concat chunks @ drop (nat start) t"
proof (induction t n start chunks rule: chunk_loop.induct)
  case (1 t n start chunks)
  show ?case
  proof (cases "start < int (length t)")
    case True
    have split: "take (nat n) (drop (nat start) t) @ drop (nat (start + n)) t
                 = drop (nat start) t"
    proof -
      have "nat (start + n) = nat n + nat start"
        using "1.prems" by (simp add: nat_add_distrib)
      then have "drop (nat (start + n)) t = drop (nat n) (drop (nat start) t)"
        by simp
      then show ?thesis by (simp only: append_take_drop_id)
    qed
    have "concat (chunk_loop t n start chunks)
          = concat (chunk_loop t n (start + n) (chunks @ [slice t start (start + n)]))"
      using True "1.prems" by (subst chunk_loop.simps) simp
    also have "\<dots> = concat (chunks @ [slice t start (start + n)]) @ drop (nat (start + n)) t"
      using True "1.prems" by (intro "1.IH") auto
    also have "\<dots> = concat chunks @ drop (nat start) t"
      using split by (simp add: slice_def)
    finally show ?thesis .
  next
    case False
    then show ?thesis
      using "1.prems" by (subst chunk_loop.simps) simp
  qed
qed

lemma chunk_loop_lengths:
  "0 < n \<Longrightarrow> 0 \<le> start \<Longrightarrow> start < int (length t) \<Longrightarrow>
   \<forall>c \<in> set chunks. int (length c) = n \<Longrightarrow>
   chunk_loop t n start chunks \<noteq> [] \<and>
   (\<forall>c \<in> set (butlast (chunk_loop t n start chunks)). int (length c) = n) \<and>
   1 \<le> length (last (chunk_loop t n start chunks)) \<and>
   int (length (last (chunk_loop t n start chunks))) \<le> n"
proof (induction t n start chunks rule: chunk_loop.induct)
  case (1 t n start chunks)
  define c where "c = slice t start (start + n)"
  have unfold: "chunk_loop t n start chunks = chunk_loop t n (start + n) (chunks @ [c])"
    using "1.prems"(1,3) unfolding c_def by (subst chunk_loop.simps) simp
  have len_c: "int (length c) = min n (int (length t) - start)"
    using "1.prems"(1,2,3) unfolding c_def slice_def by simp
  show ?case
  proof (cases "start + n < int (length t)")
    case True
    have "int (length c) = n"
      using len_c True by simp
    then have all: "\<forall>x \<in> set (chunks @ [c]). int (length x) = n"
      using "1.prems"(4) by simp
    have "chunk_loop t n (start + n) (chunks @ [c]) \<noteq> [] \<and>
      (\<forall>x \<in> set (butlast (chunk_loop t n (start + n) (chunks @ [c]))). int (length x) = n) \<and>
      1 \<le> length (last (chunk_loop t n (start + n) (chunks @ [c]))) \<and>
      int (length (last (chunk_loop t n (start + n) (chunks @ [c])))) \<le> n"
      unfolding c_def
    proof (rule "1.IH")
      show "start < int (length t) \<and> 0 < n" using "1.prems" by simp
      show "0 < n" using "1.prems" by simp
      show "0 \<le> start + n" using "1.prems" by simp
      show "start + n < int (length t)" using True .
      show "\<forall>x \<in> set (chunks @ [slice t start (start + n)]). int (length x) = n"
        using all unfolding c_def .
    qed
    then show ?thesis
      unfolding unfold by simp
  next
    case False
    then have stop: "chunk_loop t n (start + n) (chunks @ [c]) = chunks @ [c]"
      by (subst chunk_loop.simps) simp
    have "1 \<le> length c" "int (length c) \<le> n"
      using len_c "1.prems"(1,2,3) by simp_all
    then show ?thesis
      using "1.prems"(4) by (simp add: unfold stop)
  qed
qed

text \<open>
  C1. For every string \<open>s\<close> and every positive \<open>n\<close>, \<open>chunk_text s n\<close> returns a
  sequence of chunks whose concatenation is exactly \<open>s\<close>; every chunk except possibly
  the last has length exactly \<open>n\<close>; when \<open>s\<close> is not empty the sequence is not empty
  and its last chunk has a length between 1 and \<open>n\<close>; and the empty string gives the
  one-element sequence holding the empty string.
\<close>

theorem chunk_text_round_trip:
  assumes "0 < n"
  shows "\<exists>chunks. chunk_text s n = Inr chunks \<and> concat chunks = s \<and>
           (\<forall>c \<in> set (butlast chunks). int (length c) = n) \<and>
           (s \<noteq> [] \<longrightarrow> chunks \<noteq> [] \<and> 1 \<le> length (last chunks) \<and>
                          int (length (last chunks)) \<le> n) \<and>
           chunk_text [] n = Inr [[]]"
proof (cases "s = []")
  case True
  then show ?thesis using assms by (simp add: chunk_text_def)
next
  case False
  have eq: "chunk_text s n = Inr (chunk_loop s n 0 [])"
    using False assms by (simp add: chunk_text_def)
  have cat: "concat (chunk_loop s n 0 []) = s"
    using chunk_loop_concat [of n 0 s "[]"] assms by simp
  have lens: "chunk_loop s n 0 [] \<noteq> [] \<and>
     (\<forall>c \<in> set (butlast (chunk_loop s n 0 [])). int (length c) = n) \<and>
     1 \<le> length (last (chunk_loop s n 0 [])) \<and>
     int (length (last (chunk_loop s n 0 []))) \<le> n"
    using chunk_loop_lengths [of n 0 s "[]"] assms False by simp
  have empty: "chunk_text [] n = Inr [[]]"
    using assms by (simp add: chunk_text_def)
  show ?thesis using eq cat lens empty by simp
qed

theorem chunk_text_round_trip_witness:
  "(0::int) < 3 \<and> chunk_text (str ''abcde'') 3 = Inr [str ''abc'', str ''de''] \<and>
   concat [str ''abc'', str ''de''] = str ''abcde'' \<and>
   chunk_text [] 3 = Inr [[]]"
proof -
  have val: "chunk_text (str ''abcde'') 3 = Inr [str ''abc'', str ''de'']"
    by code_simp
  show ?thesis
    using chunk_text_round_trip [of 3 "str ''abcde''"] val by (simp add: str_def)
qed

section \<open>Properties of the text extractor\<close>

lemmas tokenizer_defs = scan_def start_tag_def end_tag_def tag_name_def after_def reference_def
  isalpha_def isdigit_def isxdigit_def isalnum_def lower_def CDATA_CONTENT_ELEMENTS_def str_def

lemmas extractor_defs = extract_text_def feed_events_def init_def get_text_def
  handle_starttag_def handle_endtag_def handle_data_def handle_entityref_def handle_charref_def
  IGNORED_TAGS_def BLOCK_TAGS_def unescape_def strip_def isspace_def islinebreak_def
  splitlines_def str_def

lemma dispatch_depth:
  "0 \<le> ignored_depth self \<Longrightarrow> 0 \<le> ignored_depth (dispatch charref_sub self ev)"
  by (cases ev)
     (auto simp: handle_starttag_def handle_endtag_def handle_data_def
        handle_entityref_def handle_charref_def)

lemma foldl_dispatch_depth:
  "0 \<le> ignored_depth self \<Longrightarrow> 0 \<le> ignored_depth (foldl (dispatch charref_sub) self events)"
  by (induction events arbitrary: self) (simp_all add: dispatch_depth)

lemma feed_events_depth: "0 \<le> ignored_depth (feed_events charref_sub events)"
  unfolding feed_events_def by (rule foldl_dispatch_depth) (simp add: init_def)

lemma suppressed_run:
  "open_ignored d events = Some k \<Longrightarrow> int d < ignored_depth self \<Longrightarrow>
   foldl (dispatch charref_sub) self events =
     self\<lparr>ignored_depth := ignored_depth self - int d + int k\<rparr>"
proof (induction events arbitrary: d self)
  case Nil
  then show ?case by simp
next
  case (Cons ev events)
  have pos: "ignored_depth self \<noteq> 0"
    using Cons.prems(2) by simp
  show ?case
  proof (cases ev)
    case (StartTag tag)
    show ?thesis
    proof (cases "tag \<in> IGNORED_TAGS")
      case True
      then have "open_ignored (Suc d) events = Some k"
        using Cons.prems(1) StartTag by simp
      then have "foldl (dispatch charref_sub) (self\<lparr>ignored_depth := ignored_depth self + 1\<rparr>) events
                 = self\<lparr>ignored_depth := ignored_depth self + 1\<rparr>
                     \<lparr>ignored_depth := ignored_depth (self\<lparr>ignored_depth := ignored_depth self + 1\<rparr>)
                        - int (Suc d) + int k\<rparr>"
        using Cons.prems(2) by (intro Cons.IH) simp_all
      then show ?thesis
        using True StartTag by (simp add: handle_starttag_def)
    next
      case False
      then show ?thesis
        using Cons StartTag pos by (simp add: handle_starttag_def)
    qed
  next
    case (EndTag tag)
    show ?thesis
    proof (cases "tag \<in> IGNORED_TAGS")
      case True
      then obtain d' where d: "d = Suc d'" and rest: "open_ignored d' events = Some k"
        using Cons.prems(1) EndTag by (cases d) simp_all
      have "foldl (dispatch charref_sub) (self\<lparr>ignored_depth := ignored_depth self - 1\<rparr>) events
            = self\<lparr>ignored_depth := ignored_depth self - 1\<rparr>
                \<lparr>ignored_depth := ignored_depth (self\<lparr>ignored_depth := ignored_depth self - 1\<rparr>)
                   - int d' + int k\<rparr>"
        using Cons.prems(2) rest d by (intro Cons.IH) simp_all
      then show ?thesis
        using True EndTag pos d by (simp add: handle_endtag_def)
    next
      case False
      then show ?thesis
        using Cons EndTag pos by (simp add: handle_endtag_def)
    qed
  qed (use Cons pos in \<open>simp_all add: handle_data_def handle_entityref_def handle_charref_def\<close>)
qed

lemma events_nested_script:
  "goahead None (str ''<script><script>x</script>y</script>keep'') =
   Some [StartTag (str ''script''), Data (str ''<script>x''), EndTag (str ''script''),
         Data (str ''y''), EndTag (str ''script''), Data (str ''keep'')]"
  by (simp add: goahead.simps tokenizer_defs)

lemma events_script:
  "goahead None (str ''<script>evil()</script>keep'') =
   Some [StartTag (str ''script''), Data (str ''evil()''), EndTag (str ''script''),
         Data (str ''keep'')]"
  by (simp add: goahead.simps tokenizer_defs)

lemma events_two_paragraphs:
  "goahead None (str ''<p>a</p><p>b</p>'') =
   Some [StartTag (str ''p''), Data (str ''a''), EndTag (str ''p''),
         StartTag (str ''p''), Data (str ''b''), EndTag (str ''p'')]"
  by (simp add: goahead.simps tokenizer_defs)

lemma events_script_img:
  "goahead None (str ''<script></img>x</script>'') =
   Some [StartTag (str ''script''), Data (str ''</img>x''), EndTag (str ''script'')]"
  by (simp add: goahead.simps tokenizer_defs)

lemma events_video_img:
  "goahead None (str ''<video></img>x</video>'') =
   Some [StartTag (str ''video''), EndTag (str ''img''), Data (str ''x''),
         EndTag (str ''video'')]"
  by (simp add: goahead.simps tokenizer_defs)

lemma text_nested_script:
  "parse_answer_text charref_sub (str ''<script><script>x</script>y</script>keep'')
   = Some (str ''ykeep'')"
  by (simp add: parse_answer_text_def events_nested_script) (simp add: extractor_defs)

lemma text_script:
  "parse_answer_text charref_sub (str ''<script>evil()</script>keep'') = Some (str ''keep'')"
  by (simp add: parse_answer_text_def events_script) (simp add: extractor_defs)

lemma text_two_paragraphs:
  "parse_answer_text charref_sub (str ''<p>a</p><p>b</p>'') = Some [97, 10, 10, 98]"
  by (simp add: parse_answer_text_def events_two_paragraphs) (simp add: extractor_defs)

lemma text_script_img:
  "parse_answer_text charref_sub (str ''<script></img>x</script>'') = Some []"
  by (simp add: parse_answer_text_def events_script_img) (simp add: extractor_defs)

lemma text_video_img:
  "parse_answer_text charref_sub (str ''<video></img>x</video>'') = Some (str ''x'')"
  by (simp add: parse_answer_text_def events_video_img) (simp add: extractor_defs)

lemma splitlines_from_no_break:
  "\<forall>c \<in> set cur. \<not> islinebreak c \<Longrightarrow>
   \<forall>l \<in> set (splitlines_from cur s). \<forall>c \<in> set l. \<not> islinebreak c"
proof (induction cur s rule: splitlines_from.induct)
  case (1 cur)
  then show ?case by simp
next
  case (2 cur c)
  then show ?case by simp
next
  case (3 cur c d cs)
  show ?case
  proof (cases "c = 13 \<and> d = 10")
    case True
    then have "\<forall>l \<in> set (splitlines_from [] cs). \<forall>c \<in> set l. \<not> islinebreak c"
      by (intro "3.IH"(1)) simp_all
    then show ?thesis
      using True "3.prems" by simp
  next
    case False
    show ?thesis
    proof (cases "islinebreak c")
      case True
      have "\<forall>l \<in> set (splitlines_from [] (d # cs)). \<forall>c \<in> set l. \<not> islinebreak c"
        using False True by (intro "3.IH"(2)) simp_all
      then show ?thesis
        using False True "3.prems" by auto
    next
      case nb: False
      have "\<forall>l \<in> set (splitlines_from (cur @ [c]) (d # cs)). \<forall>c \<in> set l. \<not> islinebreak c"
        using False nb "3.prems" by (intro "3.IH"(3)) simp_all
      then show ?thesis
        using False nb by auto
    qed
  qed
qed

lemma set_strip: "set (strip s) \<subseteq> set s"
  unfolding strip_def by (auto dest!: set_dropWhileD)

lemma strip_tight:
  "strip s = [] \<or> (\<not> isspace (hd (strip s)) \<and> \<not> isspace (last (strip s)))"
proof (cases "strip s = []")
  case True
  then show ?thesis by simp
next
  case False
  define t where "t = dropWhile isspace s"
  define u where "u = dropWhile isspace (rev t)"
  have s: "strip s = rev u"
    by (simp add: strip_def t_def u_def)
  have u: "u \<noteq> []"
    using False s by simp
  then have last: "\<not> isspace (hd u)"
    unfolding u_def by (rule hd_dropWhile)
  have "rev t = takeWhile isspace (rev t) @ u"
    by (simp add: u_def)
  then have "t = rev u @ rev (takeWhile isspace (rev t))"
    by (metis rev_append rev_rev_ident)
  then have "hd t = hd (rev u)" and "t \<noteq> []"
    using u by (metis hd_append2 rev_is_Nil_conv, metis append_is_Nil_conv rev_is_Nil_conv)
  moreover have "\<not> isspace (hd t)"
    using \<open>t \<noteq> []\<close> unfolding t_def by (rule hd_dropWhile)
  ultimately have "\<not> isspace (hd (rev u))"
    by simp
  moreover have "last (rev u) = hd u"
    using u by (simp add: last_rev)
  ultimately show ?thesis
    using s last by simp
qed

lemma tight_strip:
  assumes "l = [] \<or> (\<not> isspace (hd l) \<and> \<not> isspace (last l))"
  shows "strip l = l"
proof (cases "l = []")
  case True
  then show ?thesis by (simp add: strip_def)
next
  case False
  then have "dropWhile isspace l = l"
    using assms by (cases l) auto
  moreover have "dropWhile isspace (rev l) = rev l"
    using assms False by (cases "rev l") (auto simp: hd_rev)
  ultimately show ?thesis
    by (simp add: strip_def)
qed

lemma strip_strip: "strip (strip s) = strip s"
  by (rule tight_strip) (rule strip_tight)

lemma adjacent_blank_snoc:
  "adjacent_blank (xs @ [x]) \<longleftrightarrow> adjacent_blank xs \<or> (xs \<noteq> [] \<and> last xs = [] \<and> x = [])"
  by (induction xs rule: adjacent_blank.induct) auto

lemma adjacent_blank_Cons:
  "adjacent_blank (x # xs) \<longleftrightarrow> adjacent_blank xs \<or> (xs \<noteq> [] \<and> x = [] \<and> hd xs = [])"
  by (cases xs) auto

lemma adjacent_blank_append:
  "adjacent_blank (xs @ ys) \<longleftrightarrow>
     adjacent_blank xs \<or> adjacent_blank ys \<or> (xs \<noteq> [] \<and> ys \<noteq> [] \<and> last xs = [] \<and> hd ys = [])"
proof (induction ys arbitrary: xs)
  case Nil
  then show ?case by simp
next
  case (Cons y ys)
  have "adjacent_blank (xs @ y # ys) = adjacent_blank ((xs @ [y]) @ ys)"
    by simp
  also have "\<dots> \<longleftrightarrow> adjacent_blank (xs @ [y]) \<or> adjacent_blank ys \<or>
                 (ys \<noteq> [] \<and> y = [] \<and> hd ys = [])"
    by (subst Cons.IH) auto
  finally show ?case
    by (auto simp: adjacent_blank_snoc adjacent_blank_Cons)
qed

lemma adjacent_blank_rev: "adjacent_blank (rev xs) = adjacent_blank xs"
  by (induction xs) (auto simp: adjacent_blank_snoc adjacent_blank_Cons last_rev hd_rev)

lemma filter_lines_set:
  "set (filter_lines acc prev ls) \<subseteq> set acc \<union> set ls"
proof (induction ls arbitrary: acc prev)
  case Nil
  then show ?case by simp
next
  case (Cons l ls)
  show ?case
  proof (cases "l = [] \<and> prev")
    case True
    then show ?thesis
      using Cons.IH [of acc prev] by auto
  next
    case False
    then have "filter_lines acc prev (l # ls) = filter_lines (acc @ [l]) (l = []) ls"
      by auto
    then show ?thesis
      using Cons.IH [of "acc @ [l]" "l = []"] by auto
  qed
qed

lemma filter_lines_no_adjacent:
  "\<not> adjacent_blank acc \<Longrightarrow> prev = (acc \<noteq> [] \<and> last acc = []) \<Longrightarrow>
   \<not> adjacent_blank (filter_lines acc prev ls)"
proof (induction ls arbitrary: acc prev)
  case Nil
  then show ?case by simp
next
  case (Cons l ls)
  show ?case
  proof (cases "l = [] \<and> prev")
    case True
    then have "filter_lines acc prev (l # ls) = filter_lines acc prev ls"
      by simp
    then show ?thesis
      using Cons by simp
  next
    case False
    then have eq: "filter_lines acc prev (l # ls) = filter_lines (acc @ [l]) (l = []) ls"
      by auto
    have "\<not> adjacent_blank (acc @ [l])"
      using False Cons.prems by (auto simp: adjacent_blank_snoc)
    then have "\<not> adjacent_blank (filter_lines (acc @ [l]) (l = []) ls)"
      by (rule Cons.IH) simp
    then show ?thesis
      unfolding eq .
  qed
qed

lemma join_Cons: "join sep (x # xs) = (if xs = [] then x else x @ sep @ join sep xs)"
  by (cases xs) simp_all

lemma join_snoc: "join sep (xs @ [x]) = (if xs = [] then x else join sep xs @ sep @ x)"
  by (induction sep xs rule: join.induct) simp_all

lemma rev_join: "rev (join sep xs) = join (rev sep) (map rev (rev xs))"
proof (induction xs)
  case Nil
  then show ?case by simp
next
  case (Cons x xs)
  show ?case
  proof (cases "xs = []")
    case True
    then show ?thesis by simp
  next
    case False
    then have "rev (join sep (x # xs)) = rev (join sep xs) @ rev sep @ rev x"
      by (simp add: join_Cons)
    also have "\<dots> = join (rev sep) (map rev (rev xs)) @ rev sep @ rev x"
      by (simp only: Cons.IH)
    also have "\<dots> = join (rev sep) (map rev (rev xs) @ [rev x])"
      using False by (simp add: join_snoc)
    finally show ?thesis by simp
  qed
qed

lemma dropWhile_isspace_join:
  "\<forall>l \<in> set xs. l = [] \<or> \<not> isspace (hd l) \<Longrightarrow>
   dropWhile isspace (join [10] xs) = join [10] (dropWhile (\<lambda>l. l = []) xs)"
proof (induction xs)
  case Nil
  then show ?case by simp
next
  case (Cons x xs)
  show ?case
  proof (cases "x = []")
    case True
    have "dropWhile isspace (join [10] (x # xs)) = dropWhile isspace (join [10] xs)"
      using True by (cases xs) (simp_all add: isspace_def)
    then show ?thesis
      using True Cons by simp
  next
    case False
    then have "\<not> isspace (hd x)"
      using Cons.prems by simp
    then have "dropWhile isspace (join [10] (x # xs)) = join [10] (x # xs)"
      using False by (cases x) (simp_all add: join_Cons)
    then show ?thesis
      using False by simp
  qed
qed

lemma strip_join:
  assumes "\<forall>l \<in> set xs. l = [] \<or> (\<not> isspace (hd l) \<and> \<not> isspace (last l))"
  shows "strip (join [10] xs)
         = join [10] (rev (dropWhile (\<lambda>l. l = []) (rev (dropWhile (\<lambda>l. l = []) xs))))"
proof -
  define ys where "ys = dropWhile (\<lambda>l. l = []) xs"
  have ys_sub: "set ys \<subseteq> set xs"
    unfolding ys_def by (auto dest: set_dropWhileD)
  have fwd: "dropWhile isspace (join [10] xs) = join [10] ys"
    unfolding ys_def using assms by (intro dropWhile_isspace_join) auto
  have "\<forall>l \<in> set (map rev (rev ys)). l = [] \<or> \<not> isspace (hd l)"
    using assms ys_sub by (auto simp: hd_rev)
  then have "dropWhile isspace (join [10] (map rev (rev ys)))
             = join [10] (dropWhile (\<lambda>l. l = []) (map rev (rev ys)))"
    by (rule dropWhile_isspace_join)
  also have "dropWhile (\<lambda>l. l = []) (map rev (rev ys))
             = map rev (dropWhile (\<lambda>l. l = []) (rev ys))"
    by (simp add: dropWhile_map comp_def)
  finally have bwd: "dropWhile isspace (join [10] (map rev (rev ys)))
                      = join [10] (map rev (dropWhile (\<lambda>l. l = []) (rev ys)))" .
  have "strip (join [10] xs) = rev (dropWhile isspace (rev (join [10] ys)))"
    by (simp add: strip_def fwd)
  also have "\<dots> = rev (dropWhile isspace (join [10] (map rev (rev ys))))"
    by (simp add: rev_join)
  also have "\<dots> = rev (join [10] (map rev (dropWhile (\<lambda>l. l = []) (rev ys))))"
    by (simp only: bwd)
  also have "\<dots> = join [10] (rev (dropWhile (\<lambda>l. l = []) (rev ys)))"
    by (simp add: rev_join rev_map comp_def)
  finally show ?thesis
    by (simp add: ys_def)
qed

lemma split_from_append:
  "sep \<notin> set x \<Longrightarrow> split_from sep cur (x @ r) = split_from sep (cur @ x) r"
  by (induction x arbitrary: cur) simp_all

lemma split_from_join:
  "\<forall>l \<in> set (x # xs). sep \<notin> set l \<Longrightarrow>
   split_from sep cur (join [sep] (x # xs)) = (cur @ x) # xs"
proof (induction xs arbitrary: cur x)
  case Nil
  then show ?case
    using split_from_append [of sep x cur "[]"] by simp
next
  case (Cons y ys)
  have "split_from sep cur (join [sep] (x # y # ys))
        = split_from sep (cur @ x) (sep # join [sep] (y # ys))"
    using Cons.prems split_from_append [of sep x cur "sep # join [sep] (y # ys)"] by simp
  also have "\<dots> = (cur @ x) # split_from sep [] (join [sep] (y # ys))"
    by simp
  also have "\<dots> = (cur @ x) # y # ys"
    using Cons.prems Cons.IH [of y "[]"] by simp
  finally show ?case .
qed

lemma lines_of_join:
  "xs \<noteq> [] \<Longrightarrow> \<forall>l \<in> set xs. 10 \<notin> set l \<Longrightarrow> lines_of (join [10] xs) = xs"
proof -
  assume ne: "xs \<noteq> []" and no: "\<forall>l \<in> set xs. 10 \<notin> set l"
  obtain x xs' where xs: "xs = x # xs'"
    using ne by (cases xs) auto
  show ?thesis
    unfolding lines_of_def xs using no split_from_join [of x xs' 10 "[]"] xs by simp
qed

lemma adjacent_blank_dropWhile:
  assumes "\<not> adjacent_blank xs"
  shows "\<not> adjacent_blank (dropWhile P xs)"
proof -
  have "\<not> adjacent_blank (takeWhile P xs @ dropWhile P xs)"
    using assms by simp
  then show ?thesis
    unfolding adjacent_blank_append by simp
qed

lemma set_join: "set (join sep xs) \<subseteq> set sep \<union> (\<Union>l \<in> set xs. set l)"
  by (induction sep xs rule: join.induct) auto

lemma events_breaks:
  "goahead None (str ''<p>a</p><br><br><p>b</p>'') =
   Some [StartTag (str ''p''), Data (str ''a''), EndTag (str ''p''), StartTag (str ''br''),
         StartTag (str ''br''), StartTag (str ''p''), Data (str ''b''), EndTag (str ''p'')]"
  by (simp add: goahead.simps tokenizer_defs)

lemma text_breaks:
  "parse_answer_text charref_sub (str ''<p>a</p><br><br><p>b</p>'') = Some [97, 10, 10, 98]"
  by (simp add: parse_answer_text_def events_breaks) (simp add: extractor_defs)

lemma get_text_lines:
  obtains G where "get_text self = join [10] G"
    and "\<forall>l \<in> set G. strip l = l \<and> (\<forall>c \<in> set l. \<not> islinebreak c)"
    and "\<not> adjacent_blank G"
proof -
  define L where "L = map strip (splitlines (concat (parts self)))"
  define F where "F = filter_lines [] False L"
  define G where "G = rev (dropWhile (\<lambda>l. l = []) (rev (dropWhile (\<lambda>l. l = []) F)))"
  have L_break: "\<forall>l \<in> set L. \<forall>c \<in> set l. \<not> islinebreak c"
    unfolding L_def splitlines_def
    using splitlines_from_no_break [of "[]" "concat (parts self)"] set_strip by fastforce
  have L_tight: "\<forall>l \<in> set L. l = [] \<or> (\<not> isspace (hd l) \<and> \<not> isspace (last l))"
    unfolding L_def using strip_tight by auto
  have F_sub: "set F \<subseteq> set L"
    unfolding F_def using filter_lines_set [of "[]" False L] by simp
  have F_adj: "\<not> adjacent_blank F"
    unfolding F_def by (rule filter_lines_no_adjacent) simp_all
  have G_sub: "set G \<subseteq> set F"
    unfolding G_def by (auto dest!: set_dropWhileD)
  have "\<not> adjacent_blank (rev (dropWhile (\<lambda>l. l = []) F))"
    using F_adj by (simp add: adjacent_blank_rev adjacent_blank_dropWhile)
  then have G_adj: "\<not> adjacent_blank G"
    unfolding G_def by (simp add: adjacent_blank_rev adjacent_blank_dropWhile)
  have "get_text self = strip (join [10] F)"
    by (simp add: get_text_def F_def L_def)
  also have "\<dots> = join [10] G"
    unfolding G_def using L_tight F_sub by (intro strip_join) blast
  finally have gt: "get_text self = join [10] G" .
  have "\<forall>l \<in> set G. strip l = l \<and> (\<forall>c \<in> set l. \<not> islinebreak c)"
    using G_sub F_sub L_tight L_break tight_strip by blast
  then show thesis
    using that gt G_adj by blast
qed

lemma get_text_normal:
  "strip (get_text self) = get_text self \<and>
   (\<forall>line \<in> set (lines_of (get_text self)). strip line = line) \<and>
   \<not> adjacent_blank (lines_of (get_text self)) \<and>
   (\<forall>c \<in> set (get_text self). islinebreak c \<longrightarrow> c = 10)"
proof -
  obtain G where gt: "get_text self = join [10] G"
    and G: "\<forall>l \<in> set G. strip l = l \<and> (\<forall>c \<in> set l. \<not> islinebreak c)"
    and adj: "\<not> adjacent_blank G"
    by (rule get_text_lines)
  have stripped: "strip (get_text self) = get_text self"
    unfolding get_text_def Let_def by (rule strip_strip)
  have "islinebreak 10"
    by (simp add: islinebreak_def)
  then have no_nl: "\<forall>l \<in> set G. 10 \<notin> set l"
    using G by blast
  have lines: "lines_of (get_text self) = (if G = [] then [[]] else G)"
    using lines_of_join [OF _ no_nl] by (simp add: gt lines_of_def)
  have "strip [] = []"
    by (simp add: strip_def)
  then have l1: "\<forall>line \<in> set (lines_of (get_text self)). strip line = line"
    using G lines by simp
  have l2: "\<not> adjacent_blank (lines_of (get_text self))"
    using adj lines by simp
  have "set (get_text self) \<subseteq> {10} \<union> (\<Union>l \<in> set G. set l)"
    unfolding gt using set_join [of "[10]" G] by simp
  then have l3: "\<forall>c \<in> set (get_text self). islinebreak c \<longrightarrow> c = 10"
    using G by auto
  show ?thesis
    using stripped l1 l2 l3 by simp
qed

text \<open>
  C2, as stated, fails: on \<open><script><script>x</script>y</script>keep\<close> the tokenizer
  reads the content of the first \<open>script\<close> element as character data up to the first
  \<open></script>\<close>, so the inner \<open><script>\<close> opens nothing, \<open>y\<close> arrives with the
  suppression depth back at zero, and the extractor returns \<open>ykeep\<close>. (The input holds
  no ampersand, so the result is the same for every \<open>charref_sub\<close>.)
\<close>

theorem nested_script_leaks_counterexample:
  "parse_answer_text id (str ''<script><script>x</script>y</script>keep'') = Some (str ''ykeep'')
   \<and> of_char CHR ''y'' \<in> set (str ''ykeep'')"
  by (simp add: text_nested_script) (simp add: str_def)

text \<open>
  C2, amended. On the level of the handler calls, an ignored element contributes nothing:
  when the parser, at a non-negative suppression depth, receives the start tag of an
  ignored element, then calls \<open>inner\<close> that close no more ignored elements than they
  open and leave none open, then an end tag of the ignored set, it is back in the state
  it was in, so nothing of \<open>inner\<close> reaches the output and the text extracted is that of
  the calls before and after; and as long as the element is not closed, nothing of the
  calls after its start tag is in the output buffer. \<open>parse_answer_text\<close> returns \<open>keep\<close> on
  \<open><script>evil()</script>keep\<close>. On \<open><script><script>x</script>y</script>keep\<close> it
  does not raise and returns \<open>ykeep\<close>: \<open>x\<close> does not appear, \<open>y\<close> does.
\<close>

theorem ignored_element_suppressed:
  assumes "tag \<in> IGNORED_TAGS" and "tag' \<in> IGNORED_TAGS"
    and "open_ignored 0 inner = Some 0"
    and "0 \<le> ignored_depth self"
  shows "foldl (dispatch charref_sub) self (StartTag tag # inner @ [EndTag tag']) = self \<and>
    extract_text charref_sub (before @ StartTag tag # inner @ EndTag tag' # rest)
      = extract_text charref_sub (before @ rest) \<and>
    (open_ignored 0 unclosed = Some k \<longrightarrow>
       parts (foldl (dispatch charref_sub) self (StartTag tag # unclosed)) = parts self) \<and>
    parse_answer_text charref_sub (str ''<script>evil()</script>keep'') = Some (str ''keep'') \<and>
    parse_answer_text charref_sub (str ''<script><script>x</script>y</script>keep'')
      = Some (str ''ykeep'')"
proof -
  have element: "foldl (dispatch charref_sub) st (StartTag tag # inner @ [EndTag tag']) = st"
    if "0 \<le> ignored_depth st" for st
  proof -
    let ?st1 = "st\<lparr>ignored_depth := ignored_depth st + 1\<rparr>"
    have "foldl (dispatch charref_sub) ?st1 inner
          = ?st1\<lparr>ignored_depth := ignored_depth ?st1 - int 0 + int 0\<rparr>"
      using assms(3) that by (intro suppressed_run) simp_all
    then have "foldl (dispatch charref_sub) ?st1 inner = ?st1"
      by simp
    then show ?thesis
      using assms(1,2) that by (simp add: handle_starttag_def handle_endtag_def)
  qed
  have first: "foldl (dispatch charref_sub) self (StartTag tag # inner @ [EndTag tag']) = self"
    using assms(4) by (rule element)
  have second: "extract_text charref_sub (before @ StartTag tag # inner @ EndTag tag' # rest)
        = extract_text charref_sub (before @ rest)"
  proof -
    have "foldl (dispatch charref_sub) (feed_events charref_sub before)
            (StartTag tag # inner @ [EndTag tag']) = feed_events charref_sub before"
      using feed_events_depth by (rule element)
    then have "feed_events charref_sub (before @ (StartTag tag # inner @ [EndTag tag']) @ rest)
               = feed_events charref_sub (before @ rest)"
      unfolding feed_events_def foldl_append by simp
    then show ?thesis
      by (simp add: extract_text_def)
  qed
  have third: "parts (foldl (dispatch charref_sub) self (StartTag tag # unclosed)) = parts self"
    if still_open: "open_ignored 0 unclosed = Some k"
  proof -
    let ?st1 = "self\<lparr>ignored_depth := ignored_depth self + 1\<rparr>"
    have "foldl (dispatch charref_sub) ?st1 unclosed
          = ?st1\<lparr>ignored_depth := ignored_depth ?st1 - int 0 + int k\<rparr>"
      using still_open assms(4) by (intro suppressed_run) simp_all
    then show ?thesis
      using assms(1) by (simp add: handle_starttag_def)
  qed
  show ?thesis
    using first second third text_script text_nested_script by simp
qed

theorem ignored_element_suppressed_witness:
  "str ''figure'' \<in> IGNORED_TAGS \<and> str ''img'' \<in> IGNORED_TAGS \<and>
   open_ignored 0 [StartTag (str ''img''), EndTag (str ''img''), Data (str ''caption'')] = Some 0 \<and>
   0 \<le> ignored_depth init \<and>
   open_ignored 0 [Data (str ''caption'')] = Some 0 \<and>
   parts (foldl (dispatch id) init (StartTag (str ''figure'') # [Data (str ''caption'')]))
     = parts init \<and>
   foldl (dispatch id) init
     (StartTag (str ''figure'')
        # [StartTag (str ''img''), EndTag (str ''img''), Data (str ''caption'')]
        @ [EndTag (str ''figure'')]) = init \<and>
   extract_text id
     ([Data (str ''a'')] @ StartTag (str ''figure'')
        # [StartTag (str ''img''), EndTag (str ''img''), Data (str ''caption'')]
        @ EndTag (str ''figure'') # [Data (str ''b'')])
   = extract_text id ([Data (str ''a'')] @ [Data (str ''b'')])"
proof -
  have h1: "str ''figure'' \<in> IGNORED_TAGS" and h2: "str ''img'' \<in> IGNORED_TAGS"
    by (simp_all add: IGNORED_TAGS_def str_def)
  have h3: "open_ignored 0 [StartTag (str ''img''), EndTag (str ''img''), Data (str ''caption'')]
            = Some 0"
    using h2 by simp
  have h4: "0 \<le> ignored_depth init"
    by (simp add: init_def)
  show ?thesis
    using ignored_element_suppressed [OF h1 h1 h3 h4, of id "[Data (str ''a'')]" "[Data (str ''b'')]"
        "[Data (str ''caption'')]" 0]
      h1 h2 h3 h4 by simp
qed

text \<open>
  C3, as stated, fails: \<open>parse_answer_text\<close> on \<open><p>a</p><p>b</p>\<close> does not return
  \<open>a\<close>, line feed, \<open>b\<close>.
\<close>

theorem two_paragraphs_counterexample:
  "parse_answer_text id (str ''<p>a</p><p>b</p>'') \<noteq> Some (str ''a'' @ [10] @ str ''b'')"
  by (simp add: text_two_paragraphs) (simp add: str_def)

text \<open>
  C3, amended. On \<open><p>a</p><p>b</p>\<close> the two opening and two closing \<open>p\<close> tags put
  four line feeds into the output buffer, which holds, in order, a line feed, \<open>a\<close>, two
  line feeds, \<open>b\<close> and a line feed; \<open>get_text\<close> keeps one blank line of each run of
  blank lines, and \<open>parse_answer_text\<close> returns exactly \<open>a\<close>, two line feeds, \<open>b\<close>:
  the two lines with one blank line between them.
\<close>

theorem two_paragraphs_text:
  "goahead None (str ''<p>a</p><p>b</p>'') =
     Some [StartTag (str ''p''), Data (str ''a''), EndTag (str ''p''),
           StartTag (str ''p''), Data (str ''b''), EndTag (str ''p'')] \<and>
   parts (feed_events charref_sub
     [StartTag (str ''p''), Data (str ''a''), EndTag (str ''p''),
      StartTag (str ''p''), Data (str ''b''), EndTag (str ''p'')])
     = [[10], str ''a'', [10], [10], str ''b'', [10]] \<and>
   parse_answer_text charref_sub (str ''<p>a</p><p>b</p>'')
     = Some (str ''a'' @ [10, 10] @ str ''b'')"
proof -
  have "parts (feed_events charref_sub
     [StartTag (str ''p''), Data (str ''a''), EndTag (str ''p''),
      StartTag (str ''p''), Data (str ''b''), EndTag (str ''p'')])
     = [[10], str ''a'', [10], [10], str ''b'', [10]]"
    by (simp add: extractor_defs)
  moreover have "parse_answer_text charref_sub (str ''<p>a</p><p>b</p>'')
     = Some (str ''a'' @ [10, 10] @ str ''b'')"
    by (simp add: text_two_paragraphs) (simp add: str_def)
  ultimately show ?thesis
    using events_two_paragraphs by simp
qed

text \<open>
  C5. The suppression depth is never negative: every handler call keeps a non-negative
  depth non-negative, so the depth is non-negative after any sequence of calls on a fresh
  parser, whatever the markup. A start tag of the ignored set raises the depth by exactly
  one; an end tag of the ignored set arriving at a positive depth lowers it by exactly
  one; and any end tag arriving at depth zero leaves the depth at zero.
\<close>

theorem suppression_depth_invariant:
  "(0 \<le> ignored_depth self \<longrightarrow> 0 \<le> ignored_depth (dispatch charref_sub self ev)) \<and>
   (tag \<in> IGNORED_TAGS \<longrightarrow>
      ignored_depth (handle_starttag self tag) = ignored_depth self + 1) \<and>
   (tag \<in> IGNORED_TAGS \<and> 0 < ignored_depth self \<longrightarrow>
      ignored_depth (handle_endtag self tag) = ignored_depth self - 1) \<and>
   (ignored_depth self = 0 \<longrightarrow> ignored_depth (handle_endtag self tag') = 0) \<and>
   0 \<le> ignored_depth (feed_events charref_sub events)"
  using dispatch_depth [of self charref_sub ev] feed_events_depth [of charref_sub events]
  by (simp add: handle_starttag_def handle_endtag_def)

theorem suppression_depth_invariant_witness:
  "0 \<le> ignored_depth (handle_starttag init (str ''svg'')) \<and>
   str ''svg'' \<in> IGNORED_TAGS \<and> 0 < ignored_depth (handle_starttag init (str ''svg'')) \<and>
   0 \<le> ignored_depth (dispatch id (handle_starttag init (str ''svg'')) (EndTag (str ''svg''))) \<and>
   ignored_depth (handle_starttag (handle_starttag init (str ''svg'')) (str ''svg''))
     = ignored_depth (handle_starttag init (str ''svg'')) + 1 \<and>
   ignored_depth (handle_endtag (handle_starttag init (str ''svg'')) (str ''svg''))
     = ignored_depth (handle_starttag init (str ''svg'')) - 1 \<and>
   ignored_depth init = 0 \<and> ignored_depth (handle_endtag init (str ''svg'')) = 0"
proof -
  have h: "str ''svg'' \<in> IGNORED_TAGS"
    by (simp add: IGNORED_TAGS_def str_def)
  have d: "ignored_depth (handle_starttag init (str ''svg'')) = 1"
    using h by (simp add: handle_starttag_def init_def)
  show ?thesis
    using suppression_depth_invariant
        [of "handle_starttag init (str ''svg'')" id "EndTag (str ''svg'')" "str ''svg''" "str ''svg''" "[]"]
      suppression_depth_invariant [of init id "EndTag (str ''svg'')" "str ''svg''" "str ''svg''" "[]"]
      h d
    by (simp add: init_def)
qed

text \<open>
  C10, as stated, fails: on \<open><script></img>x</script>\<close> the tokenizer reads
  \<open></img>x\<close> as character data of the \<open>script\<close> element, no end tag \<open>img\<close>
  reaches the parser, and the extractor returns the empty string. (The input holds no
  ampersand, so the result is the same for every \<open>charref_sub\<close>.)
\<close>

theorem script_img_counterexample:
  "parse_answer_text id (str ''<script></img>x</script>'') = Some [] \<and>
   of_char CHR ''x'' \<notin> set ([] :: pystr)"
  by (simp add: text_script_img)

text \<open>
  C10, amended. While the suppression depth is positive, an end tag whose name is in the
  ignored set lowers the depth by exactly one and appends nothing, whichever tag opened
  the suppression. Consequently, on \<open><video></img>x</video>\<close> the end tag \<open></img>\<close>
  ends the suppression opened by \<open><video>\<close> and \<open>parse_answer_text\<close> returns \<open>x\<close>.
  On \<open><script></img>x</script>\<close> it returns the empty string.
\<close>

theorem any_ignored_end_tag_closes:
  "(0 < ignored_depth self \<and> tag \<in> IGNORED_TAGS \<longrightarrow>
      handle_endtag self tag = self\<lparr>ignored_depth := ignored_depth self - 1\<rparr>) \<and>
   feed_events charref_sub [StartTag (str ''video''), EndTag (str ''img'')] = init \<and>
   parse_answer_text charref_sub (str ''<video></img>x</video>'') = Some (str ''x'') \<and>
   parse_answer_text charref_sub (str ''<script></img>x</script>'') = Some []"
proof -
  have "feed_events charref_sub [StartTag (str ''video''), EndTag (str ''img'')] = init"
    by (simp add: extractor_defs)
  then show ?thesis
    using text_video_img text_script_img by (simp add: handle_endtag_def)
qed

theorem any_ignored_end_tag_closes_witness:
  "0 < ignored_depth (handle_starttag init (str ''video'')) \<and> str ''img'' \<in> IGNORED_TAGS \<and>
   handle_endtag (handle_starttag init (str ''video'')) (str ''img'')
     = (handle_starttag init (str ''video''))
         \<lparr>ignored_depth := ignored_depth (handle_starttag init (str ''video'')) - 1\<rparr>"
proof -
  have h: "str ''img'' \<in> IGNORED_TAGS" "str ''video'' \<in> IGNORED_TAGS"
    by (simp_all add: IGNORED_TAGS_def str_def)
  have d: "0 < ignored_depth (handle_starttag init (str ''video''))"
    using h by (simp add: handle_starttag_def init_def)
  show ?thesis
    using any_ignored_end_tag_closes [of "handle_starttag init (str ''video'')" "str ''img''" id] h d
    by simp
qed

text \<open>
  C4. Whatever calls the tokenizer makes, and so for every input string, the text that
  \<open>get_text\<close> returns has no leading or trailing whitespace, each of its lines has no
  leading or trailing whitespace, no two adjacent lines are both empty, and the line feed
  is the only line boundary in it. In particular \<open>parse_answer_text\<close> on
  \<open><p>a</p><br><br><p>b</p>\<close> returns \<open>a\<close>, two line feeds, \<open>b\<close>, which has no two
  consecutive blank lines.
\<close>

theorem get_text_normal_form:
  "strip (get_text self) = get_text self \<and>
   (\<forall>line \<in> set (lines_of (get_text self)). strip line = line) \<and>
   \<not> adjacent_blank (lines_of (get_text self)) \<and>
   (\<forall>c \<in> set (get_text self). islinebreak c \<longrightarrow> c = 10) \<and>
   (parse_answer_text charref_sub html_content = Some r \<longrightarrow>
      strip r = r \<and> (\<forall>line \<in> set (lines_of r). strip line = line) \<and>
      \<not> adjacent_blank (lines_of r)) \<and>
   parse_answer_text charref_sub (str ''<p>a</p><br><br><p>b</p>'')
     = Some (str ''a'' @ [10, 10] @ str ''b'') \<and>
   lines_of (str ''a'' @ [10, 10] @ str ''b'') = [str ''a'', [], str ''b'']"
proof -
  have "strip r = r \<and> (\<forall>line \<in> set (lines_of r). strip line = line) \<and>
        \<not> adjacent_blank (lines_of r)"
    if parsed: "parse_answer_text charref_sub html_content = Some r"
  proof -
    obtain events where "extract_text charref_sub events = r"
      using parsed by (auto simp: parse_answer_text_def)
    then have "r = get_text (feed_events charref_sub events)"
      by (simp add: extract_text_def)
    then show ?thesis
      using get_text_normal [of "feed_events charref_sub events"] by simp
  qed
  moreover have "parse_answer_text charref_sub (str ''<p>a</p><br><br><p>b</p>'')
     = Some (str ''a'' @ [10, 10] @ str ''b'')"
    by (simp add: text_breaks) (simp add: str_def)
  moreover have "lines_of (str ''a'' @ [10, 10] @ str ''b'') = [str ''a'', [], str ''b'']"
    by (simp add: lines_of_def str_def)
  ultimately show ?thesis
    using get_text_normal [of self] by simp
qed

theorem get_text_normal_form_witness:
  "parse_answer_text id (str ''<p>a</p><br><br><p>b</p>'') = Some (str ''a'' @ [10, 10] @ str ''b'') \<and>
   lines_of (str ''a'' @ [10, 10] @ str ''b'') = [str ''a'', [], str ''b''] \<and>
   islinebreak 10 \<and> 10 \<in> set (str ''a'' @ [10, 10] @ str ''b'') \<and>
   strip (str ''a'' @ [10, 10] @ str ''b'') = str ''a'' @ [10, 10] @ str ''b'' \<and>
   strip (str ''a'') = str ''a'' \<and> strip [] = [] \<and> strip (str ''b'') = str ''b'' \<and>
   \<not> adjacent_blank [str ''a'', [], str ''b'']"
proof -
  have p: "parse_answer_text id (str ''<p>a</p><br><br><p>b</p>'')
           = Some (str ''a'' @ [10, 10] @ str ''b'')"
    by (simp add: text_breaks) (simp add: str_def)
  have l: "lines_of (str ''a'' @ [10, 10] @ str ''b'') = [str ''a'', [], str ''b'']"
    by (simp add: lines_of_def str_def)
  have b: "islinebreak 10"
    by (simp add: islinebreak_def)
  show ?thesis
    using get_text_normal_form [of "init" id "str ''<p>a</p><br><br><p>b</p>''"
        "str ''a'' @ [10, 10] @ str ''b''"] p l b
    by (simp add: str_def)
qed

section \<open>Properties of the pagination client and the pipeline\<close>

lemma records_of_append: "records_of (xs @ ys) = records_of xs @ records_of ys"
  by (induction xs rule: records_of.induct) simp_all

lemma requests_of_append: "requests_of (xs @ ys) = requests_of xs @ requests_of ys"
  by (induction xs rule: requests_of.induct) simp_all

text \<open>What the loop over the answers of a page does.\<close>

lemma for_answers_yields:
  "for_answers e limit collected items = (effects, result) \<Longrightarrow>
   effects = map Yield (records_of effects) \<and> requests_of effects = [] \<and>
   (\<forall>c. result = Inr c \<longrightarrow> c = collected + int (length (records_of effects))) \<and>
   (collected < limit \<longrightarrow> collected + int (length (records_of effects)) \<le> limit) \<and>
   (\<forall>rest offset q. collected < limit \<longrightarrow>
      paged q limit (collected + int (length (records_of effects))) offset rest \<longrightarrow>
      paged q limit collected offset (effects @ rest))"
proof (induction items arbitrary: collected effects result)
  case Nil
  then show ?case by auto
next
  case (Cons answer answers)
  show ?case
  proof (cases "answer_record e answer")
    case (Inl err)
    then show ?thesis using Cons.prems by auto
  next
    case (Inr r)
    show ?thesis
    proof (cases "collected + 1 \<ge> limit")
      case True
      then have "effects = [Yield r]" "result = Inr (collected + 1)"
        using Cons.prems Inr by simp_all
      then show ?thesis by auto
    next
      case False
      obtain effects' where rest: "for_answers e limit (collected + 1) answers = (effects', result)"
        and effects: "effects = Yield r # effects'"
        using Cons.prems Inr False
        by (cases "for_answers e limit (collected + 1) answers") auto
      have IH: "effects' = map Yield (records_of effects') \<and> requests_of effects' = [] \<and>
         (\<forall>c. result = Inr c \<longrightarrow> c = collected + 1 + int (length (records_of effects'))) \<and>
         (collected + 1 < limit \<longrightarrow> collected + 1 + int (length (records_of effects')) \<le> limit) \<and>
         (\<forall>rest offset q. collected + 1 < limit \<longrightarrow>
            paged q limit (collected + 1 + int (length (records_of effects'))) offset rest \<longrightarrow>
            paged q limit (collected + 1) offset (effects' @ rest))"
        using Cons.IH [OF rest] .
      have lt: "collected + 1 < limit" using False by simp
      show ?thesis
        unfolding effects using IH lt by (simp add: add_ac)
    qed
  qed
qed

text \<open>What one round of the loop does.\<close>

lemma page_shape:
  fixes q :: pystr and limit collected offset :: int
  assumes "collected < limit"
  defines "req \<equiv> \<lparr>req_question = q, req_limit = min DEFAULT_PAGE_SIZE (limit - collected),
                    req_offset = offset\<rparr>"
  shows "\<exists>effects.
     effects = map Yield (records_of effects) \<and> requests_of effects = [] \<and>
     collected + int (length (records_of effects)) \<le> limit \<and>
     (\<forall>rest offset' q'.
        paged q' limit (collected + int (length (records_of effects))) offset' rest \<longrightarrow>
        paged q' limit collected offset' (effects @ rest)) \<and>
     ((\<exists>outcome. page e q limit collected offset = Stop (Request req # effects) outcome \<and>
                 (page_empty e req \<longrightarrow> effects = [])) \<or>
      (page e q limit collected offset
         = Continue (Request req # effects @ [Sleep])
             (collected + int (length (records_of effects))) (offset + req_limit req) \<and>
       \<not> page_empty e req \<and> \<not> end_flag e req))"
proof (cases "transport e req")
  case None
  then have "page e q limit collected offset = Stop (Request req # []) (Some RuntimeError)"
    by (simp add: page_def req_def Let_def)
  then show ?thesis
    using assms(1) by (intro exI [of _ "[]"]) simp
next
  case (Some payload)
  show ?thesis
  proof (cases "py_get payload (str ''data'') (JArr [])")
    case (Inl err)
    then have "page e q limit collected offset = Stop (Request req # []) (Some err)"
      using Some by (simp add: page_def req_def Let_def)
    then show ?thesis
      using assms(1) by (intro exI [of _ "[]"]) simp
  next
    case (Inr answers)
    show ?thesis
    proof (cases "truthy answers")
      case False
      then have "page e q limit collected offset = Stop (Request req # []) None"
        using Some Inr by (simp add: page_def req_def Let_def)
      then show ?thesis
        using assms(1) by (intro exI [of _ "[]"]) simp
    next
      case True
      then have not_empty: "\<not> page_empty e req"
        using Some Inr by (simp add: page_empty_def)
      show ?thesis
      proof (cases "py_iter answers")
        case (Inl err)
        then have "page e q limit collected offset = Stop (Request req # []) (Some err)"
          using Some \<open>py_get payload (str ''data'') (JArr []) = Inr answers\<close> True
          by (simp add: page_def req_def Let_def)
        then show ?thesis
          using assms(1) not_empty by (intro exI [of _ "[]"]) simp
      next
        case items: (Inr items)
        obtain effects result where loop: "for_answers e limit collected items = (effects, result)"
          by (cases "for_answers e limit collected items") auto
        note facts = for_answers_yields [OF loop]
        have common: "effects = map Yield (records_of effects) \<and> requests_of effects = [] \<and>
           collected + int (length (records_of effects)) \<le> limit \<and>
           (\<forall>rest offset' q'.
              paged q' limit (collected + int (length (records_of effects))) offset' rest \<longrightarrow>
              paged q' limit collected offset' (effects @ rest))"
          using facts assms(1) by blast
        define is_end where "is_end = try_bind (py_get payload (str ''paging'') (JObj []))
                                (\<lambda>paging. py_get paging (str ''is_end'') JNull)"
        have unfold: "page e q limit collected offset =
          (case result of
             Inl err \<Rightarrow> Stop (Request req # effects) (Some err)
           | Inr collected' \<Rightarrow>
               (case is_end of
                  Inl err \<Rightarrow> Stop (Request req # effects) (Some err)
                | Inr flag \<Rightarrow>
                    if truthy flag then Stop (Request req # effects) None
                    else Continue (Request req # effects @ [Sleep]) collected'
                           (offset + req_limit req)))"
          using Some \<open>py_get payload (str ''data'') (JArr []) = Inr answers\<close> True items loop
          by (simp add: page_def req_def Let_def is_end_def split: sum.splits)
        show ?thesis
        proof (cases result)
          case (Inl err)
          then have "page e q limit collected offset = Stop (Request req # effects) (Some err)"
            using unfold by simp
          then show ?thesis
            using common not_empty by (intro exI [of _ effects]) simp
        next
          case (Inr collected')
          then have c': "collected' = collected + int (length (records_of effects))"
            using facts by simp
          show ?thesis
          proof (cases is_end)
            case (Inl err)
            then have "page e q limit collected offset = Stop (Request req # effects) (Some err)"
              using unfold Inr by simp
            then show ?thesis
              using common not_empty by (intro exI [of _ effects]) simp
          next
            case flag: (Inr flag)
            show ?thesis
            proof (cases "truthy flag")
              case True
              then have "page e q limit collected offset = Stop (Request req # effects) None"
                using unfold Inr flag by simp
              then show ?thesis
                using common not_empty by (intro exI [of _ effects]) simp
            next
              case False
              then have "page e q limit collected offset
                   = Continue (Request req # effects @ [Sleep])
                       (collected + int (length (records_of effects))) (offset + req_limit req)"
                using unfold Inr flag c' by simp
              moreover have "\<not> end_flag e req"
                using Some flag False by (simp add: end_flag_def is_end_def)
              ultimately show ?thesis
                using common not_empty by (intro exI [of _ effects]) simp
            qed
          qed
        qed
      qed
    qed
  qed
qed

lemma fetch_loop_done:
  "\<not> collected < limit \<Longrightarrow> fetch_loop e q limit collected offset = ([], None)"
  by (simp add: fetch_loop.simps)

lemma fetch_loop_Stop:
  "collected < limit \<Longrightarrow> page e q limit collected offset = Stop effects outcome \<Longrightarrow>
   fetch_loop e q limit collected offset = (effects, outcome)"
  by (simp add: fetch_loop.simps [of e q limit collected offset])

lemma fetch_loop_Continue:
  "collected < limit \<Longrightarrow> page e q limit collected offset = Continue effects collected' offset' \<Longrightarrow>
   fetch_loop e q limit collected offset
     = (effects @ fst (fetch_loop e q limit collected' offset'),
        snd (fetch_loop e q limit collected' offset'))"
  by (simp add: fetch_loop.simps [of e q limit collected offset] case_prod_beta)

lemma paged_Sleep: "paged q limit c offset (effects @ Sleep # rest)
    = paged q limit c offset (effects @ rest)"
  by (induction q limit c offset effects rule: paged.induct) simp_all

lemma fetch_loop_paged:
  "paged q limit collected offset (fst (fetch_loop e q limit collected offset))"
proof (induction e q limit collected offset rule: fetch_loop.induct)
  case (1 e q limit collected offset)
  show ?case
  proof (cases "collected < limit")
    case False
    then show ?thesis by (simp add: fetch_loop_done)
  next
    case True
    define req where "req = \<lparr>req_question = q,
       req_limit = min DEFAULT_PAGE_SIZE (limit - collected), req_offset = offset\<rparr>"
    obtain effects where
      pg: "\<forall>rest offset' q'.
        paged q' limit (collected + int (length (records_of effects))) offset' rest \<longrightarrow>
        paged q' limit collected offset' (effects @ rest)" and
      shape: "(\<exists>outcome. page e q limit collected offset = Stop (Request req # effects) outcome) \<or>
        page e q limit collected offset
          = Continue (Request req # effects @ [Sleep])
             (collected + int (length (records_of effects))) (offset + req_limit req)"
      using page_shape [OF True, where q = q and offset = offset and e = e] unfolding req_def by blast
    from shape show ?thesis
    proof
      assume "\<exists>outcome. page e q limit collected offset = Stop (Request req # effects) outcome"
      then obtain outcome where st: "page e q limit collected offset = Stop (Request req # effects) outcome"
        by blast
      have "paged q limit collected (offset + req_limit req) (effects @ [])"
        using pg by (simp del: append_Nil2)
      then show ?thesis
        using True by (simp add: fetch_loop_Stop [OF True st] req_def)
    next
      assume ct: "page e q limit collected offset
          = Continue (Request req # effects @ [Sleep])
             (collected + int (length (records_of effects))) (offset + req_limit req)"
      let ?c = "collected + int (length (records_of effects))"
      let ?o = "offset + req_limit req"
      have "paged q limit ?c ?o (fst (fetch_loop e q limit ?c ?o))"
        using True ct by (rule "1.IH")
      then have "paged q limit collected ?o (effects @ Sleep # fst (fetch_loop e q limit ?c ?o))"
        using pg by (simp add: paged_Sleep)
      then show ?thesis
        using True by (simp add: fetch_loop_Continue [OF True ct] req_def)
    qed
  qed
qed

lemma fetch_loop_stops: "stops e (fst (fetch_loop e q limit collected offset))"
proof (induction e q limit collected offset rule: fetch_loop.induct)
  case (1 e q limit collected offset)
  show ?case
  proof (cases "collected < limit")
    case False
    then show ?thesis by (simp add: fetch_loop_done)
  next
    case True
    define req where "req = \<lparr>req_question = q,
       req_limit = min DEFAULT_PAGE_SIZE (limit - collected), req_offset = offset\<rparr>"
    have stops_yields: "stops e (effects @ rest) = stops e rest" if "requests_of effects = []"
      for effects rest
      using that by (induction effects rule: requests_of.induct) simp_all
    obtain effects where
      nr: "requests_of effects = []" and
      shape: "(\<exists>outcome. page e q limit collected offset = Stop (Request req # effects) outcome \<and>
                 (page_empty e req \<longrightarrow> effects = [])) \<or>
        (page e q limit collected offset
          = Continue (Request req # effects @ [Sleep])
             (collected + int (length (records_of effects))) (offset + req_limit req) \<and>
         \<not> page_empty e req \<and> \<not> end_flag e req)"
      using page_shape [OF True, where q = q and offset = offset and e = e] unfolding req_def by blast
    from shape show ?thesis
    proof
      assume "\<exists>outcome. page e q limit collected offset = Stop (Request req # effects) outcome \<and>
                 (page_empty e req \<longrightarrow> effects = [])"
      then obtain outcome where st: "page e q limit collected offset = Stop (Request req # effects) outcome"
        and em: "page_empty e req \<longrightarrow> effects = []"
        by blast
      have "stops e (effects @ [])"
        using nr by (simp only: stops_yields stops.simps)
      then show ?thesis
        using em nr by (simp add: fetch_loop_Stop [OF True st])
    next
      assume ct: "page e q limit collected offset
          = Continue (Request req # effects @ [Sleep])
             (collected + int (length (records_of effects))) (offset + req_limit req) \<and>
         \<not> page_empty e req \<and> \<not> end_flag e req"
      let ?c = "collected + int (length (records_of effects))"
      let ?o = "offset + req_limit req"
      have "stops e (fst (fetch_loop e q limit ?c ?o))"
        using True ct by (intro "1.IH") simp_all
      then have "stops e (effects @ Sleep # fst (fetch_loop e q limit ?c ?o))"
        using nr by (simp add: stops_yields)
      then show ?thesis
        using ct by (simp add: fetch_loop_Continue [OF True conjunct1 [OF ct]])
    qed
  qed
qed

lemma paged_split:
  "paged q limit collected offset (pre @ Request req # post) \<Longrightarrow>
   collected + int (length (records_of pre)) < limit \<and>
   req = \<lparr>req_question = q,
          req_limit = min DEFAULT_PAGE_SIZE (limit - (collected + int (length (records_of pre)))),
          req_offset = offset + sum_list (map req_limit (requests_of pre))\<rparr>"
proof (induction q limit collected offset pre rule: paged.induct)
  case (1 q limit collected offset)
  then show ?case by simp
next
  case (2 q limit collected offset req' effects)
  then show ?case by (auto simp: add_ac)
next
  case (3 q limit collected offset r effects)
  then show ?case by (simp add: add_ac)
next
  case (4 q limit collected offset effects)
  then show ?case by simp
qed

lemma paged_count:
  "paged q limit collected offset (pre @ post) \<Longrightarrow> collected \<le> limit \<Longrightarrow>
   collected + int (length (records_of pre)) \<le> limit"
proof (induction q limit collected offset pre rule: paged.induct)
  case (1 q limit collected offset)
  then show ?case by simp
next
  case (2 q limit collected offset req' effects)
  then show ?case by auto
next
  case (3 q limit collected offset r effects)
  then have "collected + 1 + int (length (records_of effects)) \<le> limit"
    by simp
  then show ?case by simp
next
  case (4 q limit collected offset effects)
  then show ?case by simp
qed

lemma stops_split:
  "stops e (pre @ Request req # post) \<Longrightarrow>
   (page_empty e req \<longrightarrow> post = []) \<and> (end_flag e req \<longrightarrow> requests_of post = [])"
  by (induction e pre rule: stops.induct) simp_all

lemma fetch_loop_first:
  assumes "records_of (fst (fetch_loop e q limit collected offset)) \<noteq> []"
  shows "\<exists>r rest. fst (fetch_loop e q limit collected offset)
           = Request \<lparr>req_question = q,
                      req_limit = min DEFAULT_PAGE_SIZE (limit - collected),
                      req_offset = offset\<rparr> # Yield r # rest"
proof -
  define req where "req = \<lparr>req_question = q,
     req_limit = min DEFAULT_PAGE_SIZE (limit - collected), req_offset = offset\<rparr>"
  have lt: "collected < limit"
    using assms by (cases "collected < limit") (simp_all add: fetch_loop_done)
  obtain effects where
    ys: "effects = map Yield (records_of effects)" and
    shape: "(\<exists>outcome. page e q limit collected offset = Stop (Request req # effects) outcome) \<or>
      page e q limit collected offset
        = Continue (Request req # effects @ [Sleep])
           (collected + int (length (records_of effects))) (offset + req_limit req)"
    using page_shape [OF lt, where q = q and offset = offset and e = e] unfolding req_def by blast
  have "records_of effects \<noteq> []"
  proof
    assume empty: "records_of effects = []"
    then have "effects = []" using ys by simp
    from shape show False
    proof
      assume "\<exists>outcome. page e q limit collected offset = Stop (Request req # effects) outcome"
      then obtain outcome where "page e q limit collected offset = Stop (Request req # effects) outcome"
        by blast
      then show False
        using assms \<open>effects = []\<close> by (simp add: fetch_loop_Stop [OF lt])
    next
      assume "page e q limit collected offset
        = Continue (Request req # effects @ [Sleep])
           (collected + int (length (records_of effects))) (offset + req_limit req)"
      then show False
        using page_progress empty by fastforce
    qed
  qed
  then obtain r rs where "records_of effects = r # rs"
    by (cases "records_of effects") auto
  then obtain tl where effects: "effects = Yield r # tl"
    using ys by (cases effects) auto
  from shape show ?thesis
  proof
    assume "\<exists>outcome. page e q limit collected offset = Stop (Request req # effects) outcome"
    then obtain outcome where "page e q limit collected offset = Stop (Request req # effects) outcome"
      by blast
    then show ?thesis
      using effects by (simp add: fetch_loop_Stop [OF lt] req_def)
  next
    assume "page e q limit collected offset
        = Continue (Request req # effects @ [Sleep])
           (collected + int (length (records_of effects))) (offset + req_limit req)"
    then show ?thesis
      using effects by (simp add: fetch_loop_Continue [OF lt] req_def)
  qed
qed

lemma records_of_yields [simp]: "records_of (replicate n (Yield r)) = replicate n r"
  by (induction n) simp_all

lemma requests_of_yields [simp]: "requests_of (replicate n (Yield r)) = []"
  by (induction n) simp_all

lemma sample_answer_record:
  "parse_html e (str ''Hello'') = Inr t \<Longrightarrow> answer_record e sample_answer = Inr (sample_record t)"
  by (simp add: answer_record_def sample_answer_def sample_record_def try_bind_def py_or_def
        str_def)

lemma for_answers_replicate:
  "answer_record e a = Inr r \<Longrightarrow> collected < limit \<Longrightarrow> 0 < n \<Longrightarrow>
   for_answers e limit collected (replicate n a)
     = (replicate (min n (nat (limit - collected))) (Yield r),
        Inr (collected + int (min n (nat (limit - collected)))))"
proof (induction n arbitrary: collected)
  case 0
  then show ?case by simp
next
  case (Suc n)
  show ?case
  proof (cases "collected + 1 \<ge> limit")
    case True
    then have "min (Suc n) (nat (limit - collected)) = 1"
      using Suc.prems(2) by simp
    then show ?thesis
      using Suc.prems(1) True by simp
  next
    case False
    show ?thesis
    proof (cases "n = 0")
      case True
      then have "min (Suc n) (nat (limit - collected)) = 1"
        using Suc.prems(2) by simp
      then show ?thesis
        using Suc.prems(1) False True by simp
    next
      case n: False
      have m: "min (Suc n) (nat (limit - collected)) = Suc (min n (nat (limit - (collected + 1))))"
        using False by (simp add: min_def) linarith
      have "for_answers e limit (collected + 1) (replicate n a)
        = (replicate (min n (nat (limit - (collected + 1)))) (Yield r),
           Inr (collected + 1 + int (min n (nat (limit - (collected + 1))))))"
        using Suc.prems(1) False n by (intro Suc.IH) simp_all
      then show ?thesis
        using Suc.prems(1) False by (simp add: m)
    qed
  qed
qed

lemma page_of_full:
  assumes "collected < limit" and "0 < n"
    and "transport e \<lparr>req_question = q, req_limit = min DEFAULT_PAGE_SIZE (limit - collected),
                        req_offset = offset\<rparr> = Some (page_of n)"
    and "answer_record e sample_answer = Inr r"
  shows "page e q limit collected offset
     = Continue (Request \<lparr>req_question = q, req_limit = min DEFAULT_PAGE_SIZE (limit - collected),
                           req_offset = offset\<rparr>
                 # replicate (min n (nat (limit - collected))) (Yield r) @ [Sleep])
         (collected + int (min n (nat (limit - collected))))
         (offset + min DEFAULT_PAGE_SIZE (limit - collected))"
proof -
  have "replicate n sample_answer \<noteq> []"
    using assms(2) by simp
  then show ?thesis
    using assms for_answers_replicate [OF assms(4) assms(1) assms(2)]
    by (simp add: page_def Let_def page_of_def try_bind_def str_def)
qed

lemma page_of_empty:
  assumes "transport e \<lparr>req_question = q, req_limit = min DEFAULT_PAGE_SIZE (limit - collected),
                        req_offset = offset\<rparr> = Some (page_of 0)"
  shows "page e q limit collected offset
     = Stop [Request \<lparr>req_question = q, req_limit = min DEFAULT_PAGE_SIZE (limit - collected),
                       req_offset = offset\<rparr>] None"
  using assms by (simp add: page_def Let_def page_of_def str_def)

lemma unlimited_25:
  assumes "transport e = unlimited_server" and "parse_html e (str ''Hello'') = Inr t"
  shows "fetch_answers e q 25
     = (Request \<lparr>req_question = q, req_limit = 20, req_offset = 0\<rparr>
          # replicate 20 (Yield (sample_record t)) @ Sleep
          # Request \<lparr>req_question = q, req_limit = 5, req_offset = 20\<rparr>
          # replicate 5 (Yield (sample_record t)) @ [Sleep], None)"
proof -
  note rec = sample_answer_record [OF assms(2)]
  have p1: "page e q 25 0 0
     = Continue (Request \<lparr>req_question = q, req_limit = 20, req_offset = 0\<rparr>
                 # replicate 20 (Yield (sample_record t)) @ [Sleep]) 20 20"
    using page_of_full [of 0 25 20 e q 0, OF _ _ _ rec] assms(1)
    by (simp add: DEFAULT_PAGE_SIZE_def unlimited_server_def)
  have p2: "page e q 25 20 20
     = Continue (Request \<lparr>req_question = q, req_limit = 5, req_offset = 20\<rparr>
                 # replicate 5 (Yield (sample_record t)) @ [Sleep]) 25 25"
    using page_of_full [of 20 25 5 e q 20, OF _ _ _ rec] assms(1)
    by (simp add: DEFAULT_PAGE_SIZE_def unlimited_server_def)
  have l3: "fetch_loop e q 25 25 25 = ([], None)"
    by (simp add: fetch_loop_done)
  have l2: "fetch_loop e q 25 20 20
     = (Request \<lparr>req_question = q, req_limit = 5, req_offset = 20\<rparr>
          # replicate 5 (Yield (sample_record t)) @ [Sleep], None)"
    by (simp add: fetch_loop_Continue [OF _ p2] l3)
  show ?thesis
    unfolding fetch_answers_def by (simp add: fetch_loop_Continue [OF _ p1] l2)
qed

lemma two_pages_1000:
  assumes "transport e = two_page_server" and "parse_html e (str ''Hello'') = Inr t"
  shows "fetch_answers e q 1000
     = (Request \<lparr>req_question = q, req_limit = 20, req_offset = 0\<rparr>
          # replicate 20 (Yield (sample_record t)) @ Sleep
          # Request \<lparr>req_question = q, req_limit = 20, req_offset = 20\<rparr>
          # replicate 20 (Yield (sample_record t)) @ Sleep
          # [Request \<lparr>req_question = q, req_limit = 20, req_offset = 40\<rparr>], None)"
proof -
  note rec = sample_answer_record [OF assms(2)]
  have p1: "page e q 1000 0 0
     = Continue (Request \<lparr>req_question = q, req_limit = 20, req_offset = 0\<rparr>
                 # replicate 20 (Yield (sample_record t)) @ [Sleep]) 20 20"
    using page_of_full [of 0 1000 20 e q 0, OF _ _ _ rec] assms(1)
    by (simp add: DEFAULT_PAGE_SIZE_def two_page_server_def)
  have p2: "page e q 1000 20 20
     = Continue (Request \<lparr>req_question = q, req_limit = 20, req_offset = 20\<rparr>
                 # replicate 20 (Yield (sample_record t)) @ [Sleep]) 40 40"
    using page_of_full [of 20 1000 20 e q 20, OF _ _ _ rec] assms(1)
    by (simp add: DEFAULT_PAGE_SIZE_def two_page_server_def)
  have p3: "page e q 1000 40 40
     = Stop [Request \<lparr>req_question = q, req_limit = 20, req_offset = 40\<rparr>] None"
    using page_of_empty [of e q 1000 40 40] assms(1)
    by (simp add: DEFAULT_PAGE_SIZE_def two_page_server_def)
  have l3: "fetch_loop e q 1000 40 40
     = ([Request \<lparr>req_question = q, req_limit = 20, req_offset = 40\<rparr>], None)"
    by (simp add: fetch_loop_Stop [OF _ p3])
  have l2: "fetch_loop e q 1000 20 20
     = (Request \<lparr>req_question = q, req_limit = 20, req_offset = 20\<rparr>
          # replicate 20 (Yield (sample_record t)) @ Sleep
          # [Request \<lparr>req_question = q, req_limit = 20, req_offset = 40\<rparr>], None)"
    by (simp add: fetch_loop_Continue [OF _ p2] l3)
  show ?thesis
    unfolding fetch_answers_def by (simp add: fetch_loop_Continue [OF _ p1] l2)
qed

lemma requests_of_split:
  "requests_of post \<noteq> [] \<Longrightarrow> \<exists>a req b. post = a @ Request req # b"
proof (induction post)
  case Nil
  then show ?case by simp
next
  case (Cons x post)
  show ?case
  proof (cases x)
    case (Request req)
    then have "x # post = [] @ Request req # post" by simp
    then show ?thesis by blast
  next
    case (Yield r)
    then obtain a req b where "post = a @ Request req # b"
      using Cons by auto
    then have "x # post = (x # a) @ Request req # b" by simp
    then show ?thesis by blast
  next
    case Sleep
    then obtain a req b where "post = a @ Request req # b"
      using Cons by auto
    then have "x # post = (x # a) @ Request req # b" by simp
    then show ?thesis by blast
  qed
qed

lemma write_rows_no_yield:
  "records_of effects = [] \<Longrightarrow> snd (write_rows chunk_size effects outcome) = outcome"
  by (induction effects rule: records_of.induct) (simp_all add: case_prod_beta)

lemma stub_one:
  "fetch_answers stub q 1
     = ([Request \<lparr>req_question = q, req_limit = 1, req_offset = 0\<rparr>,
         Yield (sample_record (str ''Hello'')), Sleep], None)"
proof -
  have rec: "answer_record stub sample_answer = Inr (sample_record (str ''Hello''))"
    by (rule sample_answer_record) (simp add: stub_def)
  have p1: "page stub q 1 0 0
     = Continue (Request \<lparr>req_question = q, req_limit = 1, req_offset = 0\<rparr>
                 # replicate 1 (Yield (sample_record (str ''Hello''))) @ [Sleep]) 1 1"
    using page_of_full [of 0 1 1 stub q 0, OF _ _ _ rec]
    by (simp add: DEFAULT_PAGE_SIZE_def unlimited_server_def stub_def)
  show ?thesis
    unfolding fetch_answers_def by (simp add: fetch_loop_Continue [OF _ p1] fetch_loop_done)
qed


text \<open>
  C6. Every request of a run asks for a page of size
  \<open>min DEFAULT_PAGE_SIZE (limit - collected)\<close>, with \<open>collected\<close> the number of records
  yielded before it, at the offset that is the sum of the page sizes asked for before it
  (so the first request is at offset 0); for a limit that is not negative, the number of
  records yielded never exceeds the limit, at any point of the run; and when the server
  has unlimited data, \<open>fetch_answers\<close> with limit 25 ends normally after yielding exactly
  25 records with two requests, of page sizes 20 and 5.
\<close>

theorem pagination_limit:
  "(fst (fetch_answers e q limit) = pre @ Request req # post \<longrightarrow>
      req = \<lparr>req_question = q,
             req_limit = min DEFAULT_PAGE_SIZE (limit - int (length (records_of pre))),
             req_offset = sum_list (map req_limit (requests_of pre))\<rparr>) \<and>
   (0 \<le> limit \<and> fst (fetch_answers e q limit) = pre' @ post' \<longrightarrow>
      int (length (records_of pre')) \<le> limit) \<and>
   (transport e = unlimited_server \<and> parse_html e (str ''Hello'') = Inr t \<longrightarrow>
      snd (fetch_answers e q 25) = None \<and>
      records_of (fst (fetch_answers e q 25)) = replicate 25 (sample_record t) \<and>
      requests_of (fst (fetch_answers e q 25))
        = [\<lparr>req_question = q, req_limit = 20, req_offset = 0\<rparr>,
           \<lparr>req_question = q, req_limit = 5, req_offset = 20\<rparr>])"
proof -
  have inv: "paged q limit 0 0 (fst (fetch_answers e q limit))"
    unfolding fetch_answers_def by (rule fetch_loop_paged)
  have a: "req = \<lparr>req_question = q,
             req_limit = min DEFAULT_PAGE_SIZE (limit - int (length (records_of pre))),
             req_offset = sum_list (map req_limit (requests_of pre))\<rparr>"
    if "fst (fetch_answers e q limit) = pre @ Request req # post"
    using inv paged_split [of q limit 0 0 pre req post] that by simp
  have b: "int (length (records_of pre')) \<le> limit"
    if "0 \<le> limit" "fst (fetch_answers e q limit) = pre' @ post'"
    using inv paged_count [of q limit 0 0 pre' post'] that by simp
  have c: "snd (fetch_answers e q 25) = None \<and>
      records_of (fst (fetch_answers e q 25)) = replicate 25 (sample_record t) \<and>
      requests_of (fst (fetch_answers e q 25))
        = [\<lparr>req_question = q, req_limit = 20, req_offset = 0\<rparr>,
           \<lparr>req_question = q, req_limit = 5, req_offset = 20\<rparr>]"
    if "transport e = unlimited_server" "parse_html e (str ''Hello'') = Inr t"
    by (simp add: unlimited_25 [OF that] records_of_append requests_of_append
          replicate_add [symmetric])
  show ?thesis
    using a b c by blast
qed

theorem pagination_limit_witness:
  "fst (fetch_answers stub (str ''1'') 25)
     = (Request \<lparr>req_question = str ''1'', req_limit = 20, req_offset = 0\<rparr>
          # replicate 20 (Yield (sample_record (str ''Hello''))) @ [Sleep])
       @ Request \<lparr>req_question = str ''1'', req_limit = 5, req_offset = 20\<rparr>
       # (replicate 5 (Yield (sample_record (str ''Hello''))) @ [Sleep]) \<and>
   \<lparr>req_question = str ''1'', req_limit = 5, req_offset = 20\<rparr>
     = \<lparr>req_question = str ''1'', req_limit = min DEFAULT_PAGE_SIZE (25 - 20),
        req_offset = 20\<rparr> \<and>
   (0::int) \<le> 25 \<and>
   int (length (records_of (Request \<lparr>req_question = str ''1'', req_limit = 20, req_offset = 0\<rparr>
          # replicate 20 (Yield (sample_record (str ''Hello''))) @ [Sleep]))) \<le> 25 \<and>
   transport stub = unlimited_server \<and> parse_html stub (str ''Hello'') = Inr (str ''Hello'') \<and>
   snd (fetch_answers stub (str ''1'') 25) = None \<and>
   records_of (fst (fetch_answers stub (str ''1'') 25))
     = replicate 25 (sample_record (str ''Hello''))"
proof -
  have h1: "transport stub = unlimited_server" and h2: "parse_html stub (str ''Hello'') = Inr (str ''Hello'')"
    by (simp_all add: stub_def)
  have tr: "fst (fetch_answers stub (str ''1'') 25)
     = (Request \<lparr>req_question = str ''1'', req_limit = 20, req_offset = 0\<rparr>
          # replicate 20 (Yield (sample_record (str ''Hello''))) @ [Sleep])
       @ Request \<lparr>req_question = str ''1'', req_limit = 5, req_offset = 20\<rparr>
       # (replicate 5 (Yield (sample_record (str ''Hello''))) @ [Sleep])"
    by (simp add: unlimited_25 [OF h1 h2])
  show ?thesis
    using pagination_limit [of stub "str ''1''" 25
        "Request \<lparr>req_question = str ''1'', req_limit = 20, req_offset = 0\<rparr>
          # replicate 20 (Yield (sample_record (str ''Hello''))) @ [Sleep]"
        "\<lparr>req_question = str ''1'', req_limit = 5, req_offset = 20\<rparr>"
        "replicate 5 (Yield (sample_record (str ''Hello''))) @ [Sleep]"
        "Request \<lparr>req_question = str ''1'', req_limit = 20, req_offset = 0\<rparr>
          # replicate 20 (Yield (sample_record (str ''Hello''))) @ [Sleep]"
        "Request \<lparr>req_question = str ''1'', req_limit = 5, req_offset = 20\<rparr>
          # (replicate 5 (Yield (sample_record (str ''Hello''))) @ [Sleep])"
        "str ''Hello''"]
      h1 h2 tr
    by (simp add: DEFAULT_PAGE_SIZE_def records_of_append)
qed

text \<open>
  C7. \<open>fetch_answers\<close> always ends, and a request is sent only while fewer than
  \<open>limit\<close> records have been yielded: once the count has reached the limit no request
  follows. Nothing at all follows a request that is answered by an empty page, and no
  request follows one whose answer has the end flag set. When the server returns pages
  of 20 records until an empty page at offset 40, \<open>fetch_answers\<close> with limit 1000 ends
  normally after yielding exactly 40 records with exactly 3 requests.
\<close>

theorem pagination_termination:
  "(fst (fetch_answers e q limit) = pre @ Request req # post \<longrightarrow>
      int (length (records_of pre)) < limit \<and>
      (page_empty e req \<longrightarrow> post = []) \<and>
      (end_flag e req \<longrightarrow> requests_of post = [])) \<and>
   (fst (fetch_answers e q limit) = pre' @ post' \<and> limit \<le> int (length (records_of pre')) \<longrightarrow>
      requests_of post' = []) \<and>
   (transport e = two_page_server \<and> parse_html e (str ''Hello'') = Inr t \<longrightarrow>
      snd (fetch_answers e q 1000) = None \<and>
      records_of (fst (fetch_answers e q 1000)) = replicate 40 (sample_record t) \<and>
      requests_of (fst (fetch_answers e q 1000))
        = [\<lparr>req_question = q, req_limit = 20, req_offset = 0\<rparr>,
           \<lparr>req_question = q, req_limit = 20, req_offset = 20\<rparr>,
           \<lparr>req_question = q, req_limit = 20, req_offset = 40\<rparr>])"
proof -
  have inv: "paged q limit 0 0 (fst (fetch_answers e q limit))"
    unfolding fetch_answers_def by (rule fetch_loop_paged)
  have st: "stops e (fst (fetch_answers e q limit))"
    unfolding fetch_answers_def by (rule fetch_loop_stops)
  have a: "int (length (records_of pre)) < limit \<and>
      (page_empty e req \<longrightarrow> post = []) \<and>
      (end_flag e req \<longrightarrow> requests_of post = [])"
    if "fst (fetch_answers e q limit) = pre @ Request req # post"
    using inv st paged_split [of q limit 0 0 pre req post] stops_split [of e pre req post] that
    by simp
  have b: "requests_of post' = []"
    if split: "fst (fetch_answers e q limit) = pre' @ post'"
      and full: "limit \<le> int (length (records_of pre'))"
  proof (rule ccontr)
    assume "requests_of post' \<noteq> []"
    then obtain x req' y where "post' = x @ Request req' # y"
      using requests_of_split by blast
    then have "paged q limit 0 0 ((pre' @ x) @ Request req' # y)"
      using inv split by simp
    then have "0 + int (length (records_of (pre' @ x))) < limit"
      using paged_split by blast
    then show False
      using full by (simp add: records_of_append)
  qed
  have c: "snd (fetch_answers e q 1000) = None \<and>
      records_of (fst (fetch_answers e q 1000)) = replicate 40 (sample_record t) \<and>
      requests_of (fst (fetch_answers e q 1000))
        = [\<lparr>req_question = q, req_limit = 20, req_offset = 0\<rparr>,
           \<lparr>req_question = q, req_limit = 20, req_offset = 20\<rparr>,
           \<lparr>req_question = q, req_limit = 20, req_offset = 40\<rparr>]"
    if "transport e = two_page_server" "parse_html e (str ''Hello'') = Inr t"
    by (simp add: two_pages_1000 [OF that] records_of_append requests_of_append
          replicate_add [symmetric])
  show ?thesis
    using a b c by blast
qed

theorem pagination_termination_witness:
  "fst (fetch_answers (stub\<lparr>transport := two_page_server\<rparr>) (str ''1'') 1000)
     = (Request \<lparr>req_question = str ''1'', req_limit = 20, req_offset = 0\<rparr>
          # replicate 20 (Yield (sample_record (str ''Hello''))) @ Sleep
          # Request \<lparr>req_question = str ''1'', req_limit = 20, req_offset = 20\<rparr>
          # replicate 20 (Yield (sample_record (str ''Hello''))) @ [Sleep])
       @ Request \<lparr>req_question = str ''1'', req_limit = 20, req_offset = 40\<rparr> # [] \<and>
   page_empty (stub\<lparr>transport := two_page_server\<rparr>)
     \<lparr>req_question = str ''1'', req_limit = 20, req_offset = 40\<rparr> \<and>
   transport (stub\<lparr>transport := two_page_server\<rparr>) = two_page_server \<and>
   parse_html (stub\<lparr>transport := two_page_server\<rparr>) (str ''Hello'') = Inr (str ''Hello'') \<and>
   snd (fetch_answers (stub\<lparr>transport := two_page_server\<rparr>) (str ''1'') 1000) = None \<and>
   records_of (fst (fetch_answers (stub\<lparr>transport := two_page_server\<rparr>) (str ''1'') 1000))
     = replicate 40 (sample_record (str ''Hello'')) \<and>
   fst (fetch_answers stub (str ''1'') 25)
     = (Request \<lparr>req_question = str ''1'', req_limit = 20, req_offset = 0\<rparr>
          # replicate 20 (Yield (sample_record (str ''Hello''))) @ Sleep
          # Request \<lparr>req_question = str ''1'', req_limit = 5, req_offset = 20\<rparr>
          # replicate 5 (Yield (sample_record (str ''Hello''))))
       @ [Sleep] \<and>
   (25::int) \<le> int (length (records_of
       (Request \<lparr>req_question = str ''1'', req_limit = 20, req_offset = 0\<rparr>
          # replicate 20 (Yield (sample_record (str ''Hello''))) @ Sleep
          # Request \<lparr>req_question = str ''1'', req_limit = 5, req_offset = 20\<rparr>
          # replicate 5 (Yield (sample_record (str ''Hello'')))))) \<and>
   requests_of [Sleep] = []"
proof -
  let ?e = "stub\<lparr>transport := two_page_server\<rparr>"
  have h1: "transport ?e = two_page_server" and h2: "parse_html ?e (str ''Hello'') = Inr (str ''Hello'')"
    by (simp_all add: stub_def)
  have g1: "transport stub = unlimited_server" and g2: "parse_html stub (str ''Hello'') = Inr (str ''Hello'')"
    by (simp_all add: stub_def)
  have tr: "fst (fetch_answers ?e (str ''1'') 1000)
     = (Request \<lparr>req_question = str ''1'', req_limit = 20, req_offset = 0\<rparr>
          # replicate 20 (Yield (sample_record (str ''Hello''))) @ Sleep
          # Request \<lparr>req_question = str ''1'', req_limit = 20, req_offset = 20\<rparr>
          # replicate 20 (Yield (sample_record (str ''Hello''))) @ [Sleep])
       @ Request \<lparr>req_question = str ''1'', req_limit = 20, req_offset = 40\<rparr> # []"
    by (simp add: two_pages_1000 [OF h1 h2])
  have em: "page_empty ?e \<lparr>req_question = str ''1'', req_limit = 20, req_offset = 40\<rparr>"
    by (simp add: page_empty_def stub_def two_page_server_def page_of_def str_def)
  have tr': "fst (fetch_answers stub (str ''1'') 25)
     = (Request \<lparr>req_question = str ''1'', req_limit = 20, req_offset = 0\<rparr>
          # replicate 20 (Yield (sample_record (str ''Hello''))) @ Sleep
          # Request \<lparr>req_question = str ''1'', req_limit = 5, req_offset = 20\<rparr>
          # replicate 5 (Yield (sample_record (str ''Hello''))))
       @ [Sleep]"
    by (simp add: unlimited_25 [OF g1 g2])
  show ?thesis
    using pagination_termination [of ?e "str ''1''" 1000
        "Request \<lparr>req_question = str ''1'', req_limit = 20, req_offset = 0\<rparr>
          # replicate 20 (Yield (sample_record (str ''Hello''))) @ Sleep
          # Request \<lparr>req_question = str ''1'', req_limit = 20, req_offset = 20\<rparr>
          # replicate 20 (Yield (sample_record (str ''Hello''))) @ [Sleep]"
        "\<lparr>req_question = str ''1'', req_limit = 20, req_offset = 40\<rparr>" "[]" "[]" "[]"
        "str ''Hello''"]
      pagination_termination [of stub "str ''1''" 25 "[]"
        "\<lparr>req_question = str ''1'', req_limit = 20, req_offset = 0\<rparr>"
        "replicate 20 (Yield (sample_record (str ''Hello''))) @ Sleep
          # Request \<lparr>req_question = str ''1'', req_limit = 5, req_offset = 20\<rparr>
          # replicate 5 (Yield (sample_record (str ''Hello''))) @ [Sleep]"
        "Request \<lparr>req_question = str ''1'', req_limit = 20, req_offset = 0\<rparr>
          # replicate 20 (Yield (sample_record (str ''Hello''))) @ Sleep
          # Request \<lparr>req_question = str ''1'', req_limit = 5, req_offset = 20\<rparr>
          # replicate 5 (Yield (sample_record (str ''Hello'')))"
        "[Sleep]" "str ''Hello''"]
      h1 h2 tr em tr'
    by (simp add: records_of_append)
qed

text \<open>
  C8, as stated, fails: with chunk size 0, limit 1 and a server that has data, the
  program sends the first request and only then ends with the \<open>ValueError\<close> of
  \<open>chunk_text\<close>.
\<close>

theorem late_chunk_size_error_counterexample:
  "main stub \<lparr>arg_question = str ''1'', arg_limit = 1, arg_chunk_size = 0\<rparr>
     = ([Fetched \<lparr>req_question = str ''1'', req_limit = 1, req_offset = 0\<rparr>],
        Uncaught ValueError)"
  by (simp add: main_def write_answers_to_csv_def stub_one chunk_text_def)

text \<open>
  C8, amended. For every text and every chunk size that is not positive \<open>chunk_text\<close>
  raises \<open>ValueError\<close> and produces no chunks. The program checks the chunk size nowhere
  else: when the run yields a record, the error is raised while the first record is
  written, after exactly one request has been sent, and it leaves \<open>main\<close> uncaught; when
  the run yields no record, the chunk size is never checked and the program ends as the
  fetch ends.
\<close>

theorem chunk_size_checked_at_first_record:
  "(chunk_size \<le> 0 \<longrightarrow> chunk_text t chunk_size = Inl ValueError) \<and>
   (arg_chunk_size a \<le> 0 \<and>
    records_of (fst (fetch_answers e (arg_question a) (arg_limit a))) \<noteq> [] \<longrightarrow>
      main e a = ([Fetched \<lparr>req_question = arg_question a,
                              req_limit = min DEFAULT_PAGE_SIZE (arg_limit a),
                              req_offset = 0\<rparr>], Uncaught ValueError)) \<and>
   (arg_chunk_size a \<le> 0 \<and>
    records_of (fst (fetch_answers e (arg_question a) (arg_limit a))) = [] \<longrightarrow>
      snd (main e a) = ending_of (snd (fetch_answers e (arg_question a) (arg_limit a))))"
proof -
  have first: "chunk_text t chunk_size = Inl ValueError" if "chunk_size \<le> 0"
    using that by (simp add: chunk_text_def)
  have second: "main e a = ([Fetched \<lparr>req_question = arg_question a,
                              req_limit = min DEFAULT_PAGE_SIZE (arg_limit a),
                              req_offset = 0\<rparr>], Uncaught ValueError)"
    if neg: "arg_chunk_size a \<le> 0"
      and some: "records_of (fst (fetch_answers e (arg_question a) (arg_limit a))) \<noteq> []"
  proof -
    obtain r rest where "fst (fetch_answers e (arg_question a) (arg_limit a))
        = Request \<lparr>req_question = arg_question a,
                   req_limit = min DEFAULT_PAGE_SIZE (arg_limit a - 0), req_offset = 0\<rparr>
          # Yield r # rest"
      using fetch_loop_first [of e "arg_question a" "arg_limit a" 0 0] some
      unfolding fetch_answers_def by blast
    then show ?thesis
      using neg by (simp add: main_def write_answers_to_csv_def chunk_text_def)
  qed
  have third: "snd (main e a) = ending_of (snd (fetch_answers e (arg_question a) (arg_limit a)))"
    if "records_of (fst (fetch_answers e (arg_question a) (arg_limit a))) = []"
  proof -
    have "snd (write_answers_to_csv (fetch_answers e (arg_question a) (arg_limit a))
                 (arg_chunk_size a))
          = snd (fetch_answers e (arg_question a) (arg_limit a))"
      unfolding write_answers_to_csv_def using that by (rule write_rows_no_yield)
    then show ?thesis
      by (simp add: main_def case_prod_beta)
  qed
  show ?thesis
    using first second third by blast
qed

theorem chunk_size_checked_at_first_record_witness:
  "(0::int) \<le> 0 \<and> chunk_text (str ''Hello'') 0 = Inl ValueError \<and>
   arg_chunk_size \<lparr>arg_question = str ''1'', arg_limit = 1, arg_chunk_size = 0\<rparr> \<le> 0 \<and>
   records_of (fst (fetch_answers stub (str ''1'') 1)) = [sample_record (str ''Hello'')] \<and>
   main stub \<lparr>arg_question = str ''1'', arg_limit = 1, arg_chunk_size = 0\<rparr>
     = ([Fetched \<lparr>req_question = str ''1'', req_limit = min DEFAULT_PAGE_SIZE 1,
                    req_offset = 0\<rparr>], Uncaught ValueError) \<and>
   records_of (fst (fetch_answers stub (str ''1'') 0)) = [] \<and>
   snd (main stub \<lparr>arg_question = str ''1'', arg_limit = 0, arg_chunk_size = 0\<rparr>) = Returned 0"
proof -
  have one: "records_of (fst (fetch_answers stub (str ''1'') 1)) = [sample_record (str ''Hello'')]"
    by (simp add: stub_one)
  have none: "fetch_answers stub (str ''1'') 0 = ([], None)"
    by (simp add: fetch_answers_def fetch_loop_done)
  show ?thesis
    using chunk_size_checked_at_first_record
        [of 0 "str ''Hello''" "\<lparr>arg_question = str ''1'', arg_limit = 1, arg_chunk_size = 0\<rparr>" stub]
      chunk_size_checked_at_first_record
        [of 0 "str ''Hello''" "\<lparr>arg_question = str ''1'', arg_limit = 0, arg_chunk_size = 0\<rparr>" stub]
      one none
    by simp
qed





end
